theory Spec2Isabelle
  imports Main "HOL-Library.Sublist" "HOL-Library.Multiset"
begin

section \<open>JavaScript strings\<close>

text \<open>
  The repository is JavaScript. A string is modelled as a \<^typ>\<open>string\<close>, a list of
  8-bit code units: the development covers the texts whose UTF-16 code units are below
  256. The library operations the sources call (\<open>startsWith\<close>, \<open>indexOf\<close>,
  \<open>slice\<close>, \<open>trim\<close>, \<open>split\<close>, \<open>replace\<close>) are written out as list functions.
\<close>

definition LF :: char where
  "LF = CHR 0x0A"

definition CR :: char where
  "CR = CHR 0x0D"

definition is_ws :: "char \<Rightarrow> bool" where
  \<comment> \<open>What \<open>trim\<close> strips and \<open>\s\<close> matches: tab, LF, VT, FF, CR, space, NBSP.\<close>
  "is_ws c = (c = CHR 0x09 \<or> c = CHR 0x0A \<or> c = CHR 0x0B \<or> c = CHR 0x0C \<or> c = CHR 0x0D
     \<or> c = CHR 0x20 \<or> c = CHR 0xA0)"

definition is_line_terminator :: "char \<Rightarrow> bool" where
  \<comment> \<open>The characters \<open>.\<close> does not match, and after which \<open>^\<close> holds under the \<open>m\<close> flag.\<close>
  "is_line_terminator c = (c = CHR 0x0A \<or> c = CHR 0x0D)"

definition is_digit :: "char \<Rightarrow> bool" where
  "is_digit c = (let n = (of_char c :: nat) in 48 \<le> n \<and> n \<le> 57)"

definition is_lower :: "char \<Rightarrow> bool" where
  "is_lower c = (let n = (of_char c :: nat) in 97 \<le> n \<and> n \<le> 122)"

definition is_upper :: "char \<Rightarrow> bool" where
  "is_upper c = (let n = (of_char c :: nat) in 65 \<le> n \<and> n \<le> 90)"

definition is_word_char :: "char \<Rightarrow> bool" where
  \<comment> \<open>The class \<open>\w\<close>.\<close>
  "is_word_char c = (is_digit c \<or> is_lower c \<or> is_upper c \<or> c = CHR ''_'')"

fun startsWith :: "string \<Rightarrow> string \<Rightarrow> bool" where
  \<comment> \<open>\<open>startsWith p s\<close> is \<open>s.startsWith(p)\<close>.\<close>
  "startsWith [] s = True"
| "startsWith (p # ps) [] = False"
| "startsWith (p # ps) (c # cs) = (p = c \<and> startsWith ps cs)"

definition endsWith :: "string \<Rightarrow> string \<Rightarrow> bool" where
  \<comment> \<open>\<open>endsWith p s\<close> is \<open>s.endsWith(p)\<close>.\<close>
  "endsWith p s = startsWith (rev p) (rev s)"

fun find_index :: "string \<Rightarrow> string \<Rightarrow> nat option" where
  \<comment> \<open>The least index at which the (non-empty) needle occurs.\<close>
  "find_index needle [] = None"
| "find_index needle (c # cs) =
     (if startsWith needle (c # cs) then Some 0
      else map_option Suc (find_index needle cs))"

definition indexOf :: "string \<Rightarrow> nat \<Rightarrow> string \<Rightarrow> nat option" where
  \<comment> \<open>\<open>indexOf needle from s\<close> is \<open>s.indexOf(needle, from)\<close> for a non-empty needle;
      \<open>None\<close> stands for -1.\<close>
  "indexOf needle from s = map_option (\<lambda>i. i + from) (find_index needle (drop from s))"

definition slice :: "nat \<Rightarrow> nat \<Rightarrow> string \<Rightarrow> string" where
  \<comment> \<open>\<open>slice a b s\<close> is \<open>s.slice(a, b)\<close> for non-negative indices.\<close>
  "slice a b s = take (b - a) (drop a s)"

definition trimStart :: "string \<Rightarrow> string" where
  "trimStart s = dropWhile is_ws s"

definition trimEnd :: "string \<Rightarrow> string" where
  "trimEnd s = rev (dropWhile is_ws (rev s))"

definition trim :: "string \<Rightarrow> string" where
  "trim s = trimEnd (trimStart s)"

fun cons_first :: "char \<Rightarrow> string list \<Rightarrow> string list" where
  "cons_first c [] = [[c]]"
| "cons_first c (l # ls) = (c # l) # ls"

fun split_lines :: "string \<Rightarrow> string list" where
  \<comment> \<open>\<open>s.split(/\r?\n/)\<close>\<close>
  "split_lines [] = [[]]"
| "split_lines [c] = (if c = LF then [[], []] else [[c]])"
| "split_lines (c # d # cs) =
     (if c = CR \<and> d = LF then [] # split_lines cs
      else if c = LF then [] # split_lines (d # cs)
      else cons_first c (split_lines (d # cs)))"

definition is_quote :: "char \<Rightarrow> bool" where
  "is_quote c = (c = CHR 0x22 \<or> c = CHR 0x27)"

definition strip_ends :: "(char \<Rightarrow> bool) \<Rightarrow> string \<Rightarrow> string" where
  \<comment> \<open>\<open>s.replace(/^X|X$/g, "")\<close> for a one-character pattern \<open>X\<close>: a match at index 0 is
      removed, and a match at the last index when that index is not 0.\<close>
  "strip_ends P s =
     (case s of
        [] \<Rightarrow> []
      | c # cs \<Rightarrow>
          (let e = (if cs \<noteq> [] \<and> P (last cs) then butlast cs else cs)
           in if P c then e else c # e))"

definition strip_quotes :: "string \<Rightarrow> string" where
  \<comment> \<open>\<open>s.replace(/^["']|["']$/g, "")\<close>\<close>
  "strip_quotes s = strip_ends is_quote s"

section \<open>The header parser: \<open>parseFrontmatter\<close>\<close>

datatype fmvalue = Str string | Bool bool | Arr "string list"

text \<open>
  The header object starts as \<open>{}\<close>. Its own properties are a map. The one key an
  assignment does not store as an own property is \<open>__proto__\<close>: assigning an array to
  it replaces the object's prototype, assigning a string or a boolean does nothing.
\<close>

record frontmatter =
  props :: "string \<rightharpoonup> fmvalue"
  proto :: "string list option"

definition fm_empty :: frontmatter where
  "fm_empty = \<lparr>props = Map.empty, proto = None\<rparr>"

definition fm_set :: "frontmatter \<Rightarrow> string \<Rightarrow> fmvalue \<Rightarrow> frontmatter" where
  \<comment> \<open>\<open>frontmatter[k] = v\<close>\<close>
  "fm_set fm k v =
     (if k = ''__proto__''
      then (case v of Arr a \<Rightarrow> fm\<lparr>proto := Some a\<rparr> | _ \<Rightarrow> fm)
      else fm\<lparr>props := (props fm)(k \<mapsto> v)\<rparr>)"

definition fm_array :: "frontmatter \<Rightarrow> string \<Rightarrow> string list option" where
  \<comment> \<open>The array \<open>frontmatter[k]\<close> when \<open>Array.isArray(frontmatter[k])\<close>, else \<open>None\<close>.\<close>
  "fm_array fm k =
     (if k = ''__proto__'' then proto fm
      else (case props fm k of Some (Arr a) \<Rightarrow> Some a | _ \<Rightarrow> None))"

definition fm_push :: "frontmatter \<Rightarrow> string \<Rightarrow> string \<Rightarrow> frontmatter" where
  \<comment> \<open>The list-item branch: make \<open>frontmatter[k]\<close> an array if it is none, then push.\<close>
  "fm_push fm k v =
     (let fm1 = (case fm_array fm k of None \<Rightarrow> fm_set fm k (Arr []) | Some _ \<Rightarrow> fm)
      in (case fm_array fm1 k of
            Some a \<Rightarrow> fm_set fm1 k (Arr (a @ [v]))
          | None \<Rightarrow> fm1))"

definition scalar_value :: "string \<Rightarrow> fmvalue" where
  "scalar_value v = (if v = ''true'' then Bool True else if v = ''false'' then Bool False else Str v)"

definition fm_line :: "frontmatter \<times> string option \<Rightarrow> string \<Rightarrow> frontmatter \<times> string option" where
  \<comment> \<open>One turn of the loop over the header lines; the state is the header object and
      \<open>currentKey\<close> (\<open>None\<close> for \<open>null\<close>).\<close>
  "fm_line st line =
     (let fm = fst st; currentKey = snd st in
      if trim line = [] then st
      else if startsWith ''-'' (trim line) then
        (case currentKey of
           None \<Rightarrow> st
         | Some k \<Rightarrow>
             if k = [] then st
             else (fm_push fm k (strip_quotes (trim (drop 1 (trim line)))), currentKey))
      else
        (case find_index '':'' line of
           None \<Rightarrow> st
         | Some colonIndex \<Rightarrow>
             (let key = trim (take colonIndex line);
                  v = strip_quotes (trim (drop (colonIndex + 1) line))
              in if v \<noteq> [] then (fm_set fm key (scalar_value v), None)
                 else (fm_set fm key (Arr []), Some key))))"

definition parseFrontmatter :: "string \<Rightarrow> frontmatter \<times> string" where
  "parseFrontmatter content =
     (if \<not> startsWith ''---'' content then (fm_empty, content)
      else
        (case indexOf (LF # ''---'') 3 content of
           None \<Rightarrow> (fm_empty, content)
         | Some endIndex \<Rightarrow>
             (let fmText = trim (slice 3 endIndex content);
                  body = trimStart (drop (endIndex + 4) content);
                  lines = split_lines fmText
              in (fst (foldl fm_line (fm_empty, None) lines), body))))"

section \<open>The document assembler: \<open>buildGuidesData\<close>\<close>

subsection \<open>Titles and slugs\<close>

definition ascii_lower :: "char \<Rightarrow> char" where
  "ascii_lower c =
     (case map_of (zip ''ABCDEFGHIJKLMNOPQRSTUVWXYZ'' ''abcdefghijklmnopqrstuvwxyz'') c of
        Some l \<Rightarrow> l | None \<Rightarrow> c)"

definition ascii_upper :: "char \<Rightarrow> char" where
  "ascii_upper c =
     (case map_of (zip ''abcdefghijklmnopqrstuvwxyz'' ''ABCDEFGHIJKLMNOPQRSTUVWXYZ'') c of
        Some u \<Rightarrow> u | None \<Rightarrow> c)"

definition strip_mdc :: "string \<Rightarrow> string" where
  \<comment> \<open>\<open>s.replace(/\.mdc$/i, "")\<close>\<close>
  "strip_mdc s =
     (if 4 \<le> length s \<and> map ascii_lower (drop (length s - 4) s) = ''.mdc''
      then take (length s - 4) s else s)"

fun split_on :: "char \<Rightarrow> string \<Rightarrow> string list" where
  \<comment> \<open>\<open>s.split(d)\<close> for a one-character separator\<close>
  "split_on d [] = [[]]"
| "split_on d (c # cs) = (if c = d then [] # split_on d cs else cons_first c (split_on d cs))"

fun join_with :: "string \<Rightarrow> string list \<Rightarrow> string" where
  \<comment> \<open>\<open>xs.join(sep)\<close>\<close>
  "join_with sep [] = []"
| "join_with sep [x] = x"
| "join_with sep (x # y # ys) = x @ sep @ join_with sep (y # ys)"

definition capitalize :: "(string \<Rightarrow> string) \<Rightarrow> string \<Rightarrow> string" where
  \<comment> \<open>\<open>word.charAt(0).toUpperCase() + word.slice(1)\<close>; \<open>up\<close> is \<open>toUpperCase\<close>.\<close>
  "capitalize up word = (case word of [] \<Rightarrow> up [] | c # cs \<Rightarrow> up [c] @ cs)"

definition titleize :: "(string \<Rightarrow> string) \<Rightarrow> string \<Rightarrow> string" where
  "titleize up fileName =
     join_with '' ''
       (map (capitalize up)
         (split_on (CHR '' '')
           (map (\<lambda>c. if c = CHR ''_'' then CHR '' '' else c)
             (map (\<lambda>c. if c = CHR ''-'' then CHR '' '' else c) (strip_mdc fileName)))))"

fun dash_runs :: "bool \<Rightarrow> string \<Rightarrow> string" where
  \<comment> \<open>\<open>s.replace(/[^a-z0-9]+/g, "-")\<close>; the flag says that the run of other characters
      the scan is in has been replaced already.\<close>
  "dash_runs in_run [] = []"
| "dash_runs in_run (c # cs) =
     (if is_lower c \<or> is_digit c then c # dash_runs False cs
      else if in_run then dash_runs True cs
      else CHR ''-'' # dash_runs True cs)"

definition slugify :: "string \<Rightarrow> string" where
  \<comment> \<open>\<open>toLowerCase\<close> is applied to code units below 256, where the only characters it
      maps into \<open>a-z\<close> are \<open>A-Z\<close>; all others are replaced by the hyphen anyway.\<close>
  "slugify text = strip_ends (\<lambda>c. c = CHR ''-'') (dash_runs False (map ascii_lower text))"

subsection \<open>Paths\<close>

text \<open>
  \<open>path.join\<close> of Node.js, in its POSIX form: the non-empty arguments are joined with
  \<open>/\<close> and the result is normalised (empty and \<open>.\<close> segments dropped, \<open>..\<close> resolved
  against the segment before it).
\<close>

fun normalize_segments :: "bool \<Rightarrow> string list \<Rightarrow> string list \<Rightarrow> string list" where
  \<comment> \<open>The accumulator holds the segments kept so far, the last one first.\<close>
  "normalize_segments allowAboveRoot acc [] = rev acc"
| "normalize_segments allowAboveRoot acc (seg # segs) =
     (if seg = [] \<or> seg = ''.'' then normalize_segments allowAboveRoot acc segs
      else if seg = ''..'' then
        (case acc of
           a # as \<Rightarrow>
             if a = ''..'' then
               normalize_segments allowAboveRoot (if allowAboveRoot then ''..'' # acc else acc) segs
             else normalize_segments allowAboveRoot as segs
         | [] \<Rightarrow>
             normalize_segments allowAboveRoot (if allowAboveRoot then [''..''] else []) segs)
      else normalize_segments allowAboveRoot (seg # acc) segs)"

definition path_normalize :: "string \<Rightarrow> string" where
  "path_normalize p =
     (if p = [] then ''.''
      else
        (let isAbsolute = (hd p = CHR ''/'');
             trailingSeparator = (last p = CHR ''/'');
             q = join_with ''/'' (normalize_segments (\<not> isAbsolute) [] (split_on (CHR ''/'') p))
         in if q = [] then (if isAbsolute then ''/'' else if trailingSeparator then ''./'' else ''.'')
            else (if isAbsolute then ''/'' else []) @ q @ (if trailingSeparator then ''/'' else [])))"

definition path_join :: "string list \<Rightarrow> string" where
  "path_join args =
     (let joined = join_with ''/'' (filter (\<lambda>a. a \<noteq> []) args)
      in if joined = [] then ''.'' else path_normalize joined)"

subsection \<open>The file system\<close>

datatype fs_error =
    ReaddirFailed string
  | ReadFileFailed string
  | MkdirFailed string
  | WriteFileFailed string

text \<open>
  The state of the file system, as far as the build and the server read and write it:
  what exists at each path, a regular file with its text or a directory with its
  listing, and the paths at which an operation is refused (a missing permission).
\<close>

datatype fs_entry = File string | Dir "string list"

record filesystem =
  entries :: "string \<rightharpoonup> fs_entry"
  no_access :: "string \<Rightarrow> bool"

definition file_text :: "filesystem \<Rightarrow> string \<rightharpoonup> string" where
  \<comment> \<open>The regular files and their texts.\<close>
  "file_text fs p = (case entries fs p of Some (File t) \<Rightarrow> Some t | _ \<Rightarrow> None)"

definition fs_readdir :: "filesystem \<Rightarrow> string \<Rightarrow> fs_error + string list" where
  "fs_readdir fs p =
     (case entries fs p of
        Some (Dir names) \<Rightarrow> (if no_access fs p then Inl (ReaddirFailed p) else Inr names)
      | _ \<Rightarrow> Inl (ReaddirFailed p))"

definition fs_readFile :: "filesystem \<Rightarrow> string \<Rightarrow> fs_error + string" where
  "fs_readFile fs p =
     (case entries fs p of
        Some (File t) \<Rightarrow> (if no_access fs p then Inl (ReadFileFailed p) else Inr t)
      | _ \<Rightarrow> Inl (ReadFileFailed p))"

definition fs_mkdir :: "filesystem \<Rightarrow> string \<Rightarrow> fs_error + filesystem" where
  \<comment> \<open>\<open>fs.mkdir(p, { recursive: true })\<close>: an existing directory is left as it is.\<close>
  "fs_mkdir fs p =
     (if no_access fs p then Inl (MkdirFailed p)
      else (case entries fs p of
              None \<Rightarrow> Inr (fs\<lparr>entries := (entries fs)(p \<mapsto> Dir [])\<rparr>)
            | Some (Dir names) \<Rightarrow> Inr fs
            | Some (File t) \<Rightarrow> Inl (MkdirFailed p)))"

definition fs_writeFile :: "filesystem \<Rightarrow> string \<Rightarrow> string \<Rightarrow> fs_error + filesystem" where
  "fs_writeFile fs p text =
     (if no_access fs p then Inl (WriteFileFailed p)
      else (case entries fs p of
              Some (Dir names) \<Rightarrow> Inl (WriteFileFailed p)
            | _ \<Rightarrow> Inr (fs\<lparr>entries := (entries fs)(p \<mapsto> File text)\<rparr>)))"



subsection \<open>Guides, stacks and the snapshot\<close>

record stack_cfg =
  stack_id :: string
  stack_name :: string
  directory :: string
  icon :: string
  summary :: string
  focus :: string

definition STACKS :: "stack_cfg list" where
  "STACKS =
     [\<lparr>stack_id = ''typescript'', stack_name = ''TypeScript'', directory = ''Typescript'',
        icon = ''icons/typescript.png'', summary = ''Type-safe JavaScript development'',
        focus = ''Type safety, code quality, best practices''\<rparr>,
      \<lparr>stack_id = ''python'', stack_name = ''Python'', directory = ''Python'',
        icon = ''icons/python.png'', summary = ''General Python development'',
        focus = ''Type safety, readability, best practices''\<rparr>,
      \<lparr>stack_id = ''rust'', stack_name = ''Rust'', directory = ''Rust'',
        icon = ''icons/rust.png'', summary = ''Systems programming with Rust'',
        focus = ''Memory safety, performance, zero-cost abstractions''\<rparr>,
      \<lparr>stack_id = ''arduino-platformio'', stack_name = ''Arduino + PlatformIO'',
        directory = ''Arduino + PlatformIO'', icon = ''icons/arduino.png'',
        summary = ''Embedded systems & microcontrollers'',
        focus = ''Hardware abstraction, memory management, interrupts, safety''\<rparr>,
      \<lparr>stack_id = ''python-fastapi'', stack_name = ''Python + FastAPI'',
        directory = ''Python + FastAPI'', icon = ''icons/fastapi.png'',
        summary = ''Backend API development with FastAPI'',
        focus = ''Async APIs, validation, security, testing''\<rparr>,
      \<lparr>stack_id = ''solidity-foundry'', stack_name = ''Solidity + Foundry'',
        directory = ''solidity + foundry'', icon = ''icons/solidity.png'',
        summary = ''Smart contract engineering with Foundry'',
        focus = ''Security-first, gas efficiency, upgradeability''\<rparr>,
      \<lparr>stack_id = ''typescript-react-nextjs'', stack_name = ''TypeScript-React + Nextjs'',
        directory = ''Typescript-React + Nextjs'', icon = ''icons/nextjs.png'',
        summary = ''Full-stack web development with Next.js'',
        focus = ''React patterns, accessibility, performance''\<rparr>]"

record guide =
  guide_id :: string
  title :: string
  fileName :: string
  header :: frontmatter
  content :: string
  alwaysApply :: bool
  globs :: fmvalue

record stack_data =
  config :: stack_cfg
  readme :: string
  guides :: "guide list"

record snapshot =
  stacks :: "stack_data list"
  generatedAt :: string

text \<open>
  What the build takes from the JavaScript engine: the collation \<open>localeCompare\<close>, the
  case mapping \<open>toUpperCase\<close>, the serialiser \<open>JSON.stringify\<close> and the time stamp
  \<open>new Date().toISOString()\<close>. They are parameters of the model.
\<close>

record js_lib =
  localeCompare :: "string \<Rightarrow> string \<Rightarrow> int"
  toUpperCase :: "string \<Rightarrow> string"
  stringify :: "snapshot \<Rightarrow> string"
  now :: string

definition derive_alwaysApply :: "frontmatter \<Rightarrow> bool" where
  \<comment> \<open>\<open>frontmatter.alwaysApply === true || frontmatter.alwaysApply === "true"\<close>\<close>
  "derive_alwaysApply fm =
     (props fm ''alwaysApply'' = Some (Bool True) \<or> props fm ''alwaysApply'' = Some (Str ''true''))"

definition derive_globs :: "frontmatter \<Rightarrow> fmvalue" where
  \<comment> \<open>\<open>frontmatter.globs || []\<close>: the value of the key when it is truthy (an array, the
      boolean \<open>true\<close>, a non-empty string), else a new empty array.\<close>
  "derive_globs fm =
     (case props fm ''globs'' of
        None \<Rightarrow> Arr []
      | Some (Arr a) \<Rightarrow> Arr a
      | Some (Bool b) \<Rightarrow> (if b then Bool True else Arr [])
      | Some (Str s) \<Rightarrow> (if s = [] then Arr [] else Str s))"

definition make_guide :: "js_lib \<Rightarrow> string \<Rightarrow> string \<Rightarrow> guide" where
  \<comment> \<open>The guide built from a file name and the file's text.\<close>
  "make_guide lib file text =
     (let parsed = parseFrontmatter text in
      \<lparr>guide_id = slugify (strip_mdc file),
       title = titleize (toUpperCase lib) file,
       fileName = file,
       header = fst parsed,
       content = snd parsed,
       alwaysApply = derive_alwaysApply (fst parsed),
       globs = derive_globs (fst parsed)\<rparr>)"

fun read_guides :: "js_lib \<Rightarrow> filesystem \<Rightarrow> string \<Rightarrow> string list \<Rightarrow> fs_error + guide list" where
  \<comment> \<open>The loop over \<open>mdcFiles\<close>; a failing \<open>readFile\<close> ends it.\<close>
  "read_guides lib fs rulesDir [] = Inr []"
| "read_guides lib fs rulesDir (file # files) =
     (case fs_readFile fs (path_join [rulesDir, file]) of
        Inl e \<Rightarrow> Inl e
      | Inr text \<Rightarrow>
          (case read_guides lib fs rulesDir files of
             Inl e \<Rightarrow> Inl e
           | Inr gs \<Rightarrow> Inr (make_guide lib file text # gs)))"

definition guide_compare :: "js_lib \<Rightarrow> guide \<Rightarrow> guide \<Rightarrow> int" where
  "guide_compare lib a b =
     (if fileName a = ''README.md'' then - 1
      else if fileName b = ''README.md'' then 1
      else localeCompare lib (title a) (title b))"

text \<open>
  \<open>Array.prototype.sort\<close> is stable, and for a consistent comparator its result is the
  sorted permutation; the stable insertion sort below computes it.
\<close>

fun insert_sorted :: "('a \<Rightarrow> 'a \<Rightarrow> int) \<Rightarrow> 'a \<Rightarrow> 'a list \<Rightarrow> 'a list" where
  "insert_sorted cmp x [] = [x]"
| "insert_sorted cmp x (y # ys) =
     (if cmp x y \<le> 0 then x # y # ys else y # insert_sorted cmp x ys)"

definition array_sort :: "('a \<Rightarrow> 'a \<Rightarrow> int) \<Rightarrow> 'a list \<Rightarrow> 'a list" where
  "array_sort cmp xs = foldr (insert_sorted cmp) xs []"

definition stack_dir :: "string \<Rightarrow> stack_cfg \<Rightarrow> string" where
  "stack_dir repoRoot stack = path_join [repoRoot, directory stack]"

definition rules_dir :: "string \<Rightarrow> stack_cfg \<Rightarrow> string" where
  "rules_dir repoRoot stack = path_join [stack_dir repoRoot stack, ''.cursor'', ''rules'']"

definition build_stack :: "js_lib \<Rightarrow> string \<Rightarrow> filesystem \<Rightarrow> stack_cfg \<Rightarrow> fs_error + stack_data" where
  \<comment> \<open>One turn of the loop over \<open>STACKS\<close>.\<close>
  "build_stack lib repoRoot fs stack =
     (let stackDir = stack_dir repoRoot stack;
          rulesDir = rules_dir repoRoot stack
      in case fs_readdir fs rulesDir of
           Inl e \<Rightarrow> Inl e
         | Inr files \<Rightarrow>
             (case read_guides lib fs rulesDir (filter (endsWith ''.mdc'') files) of
                Inl e \<Rightarrow> Inl e
              | Inr gs \<Rightarrow>
                  Inr \<lparr>config = stack,
                       readme = (case fs_readFile fs (path_join [stackDir, ''README.md'']) of
                                   Inl e \<Rightarrow> [] | Inr text \<Rightarrow> text),
                       guides = array_sort (guide_compare lib) gs\<rparr>))"

fun build_stacks :: "js_lib \<Rightarrow> string \<Rightarrow> filesystem \<Rightarrow> stack_cfg list \<Rightarrow> fs_error + stack_data list" where
  "build_stacks lib repoRoot fs [] = Inr []"
| "build_stacks lib repoRoot fs (stack # rest) =
     (case build_stack lib repoRoot fs stack of
        Inl e \<Rightarrow> Inl e
      | Inr sd \<Rightarrow>
          (case build_stacks lib repoRoot fs rest of
             Inl e \<Rightarrow> Inl e
           | Inr sds \<Rightarrow> Inr (sd # sds)))"

datatype console_line = Built nat nat | Failure fs_error

definition data_dir :: "string \<Rightarrow> string" where
  "data_dir repoRoot = path_join [path_join [repoRoot, ''docs''], ''data'']"

definition snapshot_path :: "string \<Rightarrow> string" where
  "snapshot_path repoRoot = path_join [data_dir repoRoot, ''guides.json'']"

definition buildGuidesData :: "js_lib \<Rightarrow> string \<Rightarrow> filesystem \<Rightarrow> (fs_error + console_line) \<times> filesystem" where
  \<comment> \<open>The result is the rejection of the promise or the line the function logs, with the
      file system it leaves.\<close>
  "buildGuidesData lib repoRoot fs =
     (case fs_mkdir fs (data_dir repoRoot) of
        Inl e \<Rightarrow> (Inl e, fs)
      | Inr fs1 \<Rightarrow>
          (case build_stacks lib repoRoot fs1 STACKS of
             Inl e \<Rightarrow> (Inl e, fs1)
           | Inr stacksData \<Rightarrow>
               (let output = \<lparr>stacks = stacksData, generatedAt = now lib\<rparr>
                in case fs_writeFile fs1 (snapshot_path repoRoot) (stringify lib output) of
                     Inl e \<Rightarrow> (Inl e, fs1)
                   | Inr fs2 \<Rightarrow>
                       (Inr (Built (length stacksData)
                               (sum_list (map (\<lambda>s. length (guides s)) stacksData))),
                        fs2))))"

definition run_build :: "js_lib \<Rightarrow> string \<Rightarrow> filesystem \<Rightarrow> console_line list \<times> filesystem" where
  \<comment> \<open>\<open>buildGuidesData().catch(console.error)\<close>: what the console shows, and the file
      system after the run.\<close>
  "run_build lib repoRoot fs =
     (case buildGuidesData lib repoRoot fs of
        (Inl e, fs') \<Rightarrow> ([Failure e], fs')
      | (Inr line, fs') \<Rightarrow> ([line], fs'))"

subsection \<open>Comparators\<close>

text \<open>
  A comparator is consistent when its sign is antisymmetric and its non-positive
  results are transitive; \<open>Array.prototype.sort\<close> fixes its result for such comparators
  only. The comparison of strings by code units is one of them.
\<close>

definition consistent_comparator :: "('a \<Rightarrow> 'a \<Rightarrow> int) \<Rightarrow> bool" where
  "consistent_comparator cmp =
     ((\<forall>a b. (cmp a b < 0) = (0 < cmp b a))
      \<and> (\<forall>a b c. cmp a b \<le> 0 \<and> cmp b c \<le> 0 \<longrightarrow> cmp a c \<le> 0))"

fun code_unit_compare :: "string \<Rightarrow> string \<Rightarrow> int" where
  "code_unit_compare [] [] = 0"
| "code_unit_compare [] (b # bs) = - 1"
| "code_unit_compare (a # as) [] = 1"
| "code_unit_compare (a # as) (b # bs) =
     (if (of_char a :: nat) < of_char b then - 1
      else if (of_char b :: nat) < of_char a then 1
      else code_unit_compare as bs)"

definition plain_segment :: "string \<Rightarrow> bool" where
  \<comment> \<open>A path segment that normalisation keeps as it is.\<close>
  "plain_segment b = (b \<noteq> [] \<and> CHR ''/'' \<notin> set b \<and> b \<noteq> ''.'' \<and> b \<noteq> ''..'')"

section \<open>The snapshot server\<close>





record response =
  status :: nat
  headers :: "(string \<times> string) list"
  body :: string







subsection \<open>What the platform hands to the server\<close>



section \<open>The markup renderer: \<open>parseMarkdown\<close>\<close>

subsection \<open>Global replacement\<close>

text \<open>
  \<open>s.replace(/re/g, r)\<close> scans the text from left to right. A matcher stands for one
  regular expression together with its replacement: at a position it is given whether
  the position starts a line (the start of the text, or the character before is a line
  terminator: where \<open>^\<close> holds under the \<open>m\<close> flag) and the text from the position on,
  and it returns the replacement and the number of characters the match consumes, or
  \<open>None\<close> when the expression does not match there. After a match the scan goes on
  behind it; an empty match is followed by one copied character; without a match the
  character is copied.
\<close>

type_synonym matcher = "bool \<Rightarrow> string \<Rightarrow> (string \<times> nat) option"

function gsub :: "matcher \<Rightarrow> bool \<Rightarrow> string \<Rightarrow> string" where
  "gsub m bol [] = (case m bol [] of None \<Rightarrow> [] | Some (r, n) \<Rightarrow> r)"
| "gsub m bol (c # cs) =
     (case m bol (c # cs) of
        None \<Rightarrow> c # gsub m (is_line_terminator c) cs
      | Some (r, n) \<Rightarrow>
          if n = 0 then r @ c # gsub m (is_line_terminator c) cs
          else r @ gsub m (is_line_terminator (last (take n (c # cs)))) (drop n (c # cs)))"
  by pat_completeness auto
termination
  by (relation "measure (\<lambda>(m, bol, s). length s)") auto

definition rest_of_line :: "string \<Rightarrow> string" where
  \<comment> \<open>What \<open>(.*$)\<close> matches under the \<open>m\<close> flag: the characters up to the next line
      terminator.\<close>
  "rest_of_line s = takeWhile (\<lambda>c. \<not> is_line_terminator c) s"

definition m_line_prefix :: "string \<Rightarrow> string \<Rightarrow> string \<Rightarrow> matcher" where
  \<comment> \<open>\<open>/^PREFIX(.*$)/gim\<close> replaced by \<open>OPEN$1CLOSE\<close>\<close>
  "m_line_prefix pre opn cls bol s =
     (if bol \<and> startsWith pre s then
        (let t = rest_of_line (drop (length pre) s)
         in Some (opn @ t @ cls, length pre + length t))
      else None)"

definition m_line_exact :: "string \<Rightarrow> string \<Rightarrow> matcher" where
  \<comment> \<open>\<open>/^LINE$/gim\<close> replaced by a fixed text\<close>
  "m_line_exact line r bol s =
     (if bol \<and> startsWith line s
         \<and> (case drop (length line) s of [] \<Rightarrow> True | c # cs \<Rightarrow> is_line_terminator c)
      then Some (r, length line) else None)"

definition m_ordered_item :: matcher where
  \<comment> \<open>\<open>/^(\d+)\.\s+(.*$)/gim\<close> replaced by \<open><li>$2</li>\<close>\<close>
  "m_ordered_item bol s =
     (let ds = takeWhile is_digit s;
          a = dropWhile is_digit s
      in if bol \<and> ds \<noteq> [] \<and> startsWith ''.'' a then
           (let ws = takeWhile is_ws (drop 1 a);
                t = rest_of_line (dropWhile is_ws (drop 1 a))
            in if ws \<noteq> [] then
                 Some (''<li>'' @ t @ ''</li>'', length ds + 1 + length ws + length t)
               else None)
         else None)"

definition m_unordered_item :: matcher where
  \<comment> \<open>\<open>/^[-*+]\s+(.*$)/gim\<close> replaced by \<open><li>$1</li>\<close>\<close>
  "m_unordered_item bol s =
     (case s of
        [] \<Rightarrow> None
      | c # a \<Rightarrow>
          if bol \<and> (c = CHR ''-'' \<or> c = CHR ''*'' \<or> c = CHR ''+'') then
            (let ws = takeWhile is_ws a;
                 t = rest_of_line (dropWhile is_ws a)
             in if ws \<noteq> [] then Some (''<li>'' @ t @ ''</li>'', 1 + length ws + length t)
                else None)
          else None)"

fun find_last_index :: "string \<Rightarrow> string \<Rightarrow> nat option" where
  \<comment> \<open>The greatest index at which the needle occurs.\<close>
  "find_last_index needle [] = None"
| "find_last_index needle (c # cs) =
     (case find_last_index needle cs of
        Some k \<Rightarrow> Some (Suc k)
      | None \<Rightarrow> if startsWith needle (c # cs) then Some 0 else None)"

definition li_item :: "string \<Rightarrow> nat option" where
  \<comment> \<open>One turn of the group \<open>(<li>.*<\/li>\n?)\<close>: the number of characters it consumes.
      The greedy \<open>.*\<close> ends at the last \<open></li>\<close> of the line.\<close>
  "li_item s =
     (if startsWith ''<li>'' s then
        (case find_last_index ''</li>'' (rest_of_line (drop 4 s)) of
           None \<Rightarrow> None
         | Some k \<Rightarrow>
             (let n = 4 + k + 5
              in Some (if startsWith [LF] (drop n s) then n + 1 else n)))
      else None)"

function li_run :: "string \<Rightarrow> nat" where
  \<comment> \<open>The length of the match of \<open>(<li>.*<\/li>\n?)+\<close> at the start of the text, 0 when
      there is none.\<close>
  "li_run s =
     (case li_item s of
        None \<Rightarrow> 0
      | Some n \<Rightarrow> if n = 0 \<or> s = [] then 0 else n + li_run (drop n s))"
  by pat_completeness auto
termination
  by (relation "measure length") auto

definition is_ordered_match :: "string \<Rightarrow> bool" where
  \<comment> \<open>\<open>/^\d+\./.test(match)\<close>\<close>
  "is_ordered_match mt = (takeWhile is_digit mt \<noteq> [] \<and> startsWith ''.'' (dropWhile is_digit mt))"

definition m_list_wrap :: matcher where
  \<comment> \<open>\<open>/(<li>.*<\/li>\n?)+/g\<close> with the callback that chooses \<open>ol\<close> or \<open>ul\<close>\<close>
  "m_list_wrap bol s =
     (let n = li_run s in
      if n = 0 then None
      else
        (let mt = take n s;
             tag = (if is_ordered_match mt then ''ol'' else ''ul'')
         in Some (''<'' @ tag @ ''>'' @ mt @ ''</'' @ tag @ ''>'', n)))"

definition m_span :: "string \<Rightarrow> string \<Rightarrow> string \<Rightarrow> matcher" where
  \<comment> \<open>\<open>/D(.*?)D/g\<close> for a delimiter \<open>D\<close>, replaced by \<open>OPEN$1CLOSE\<close>: the lazy \<open>.*?\<close> ends
      at the first \<open>D\<close> behind the opening one, which must be on the same line.\<close>
  "m_span delim opn cls bol s =
     (if startsWith delim s then
        (case find_index delim (drop (length delim) s) of
           None \<Rightarrow> None
         | Some k \<Rightarrow>
             (let t = take k (drop (length delim) s)
              in if list_ex is_line_terminator t then None
                 else Some (opn @ t @ cls, length delim + k + length delim)))
      else None)"

definition backtick :: char where
  "backtick = CHR 0x60"

definition escape_html :: "string \<Rightarrow> string" where
  \<comment> \<open>\<open>code.replace(/&/g, "&amp;").replace(/</g, "&lt;").replace(/>/g, "&gt;")\<close>\<close>
  "escape_html code =
     concat (map (\<lambda>c. if c = CHR ''>'' then ''&gt;'' else [c])
       (concat (map (\<lambda>c. if c = CHR ''<'' then ''&lt;'' else [c])
         (concat (map (\<lambda>c. if c = CHR ''&'' then ''&amp;'' else [c]) code)))))"

definition fence :: string where
  \<comment> \<open>The three backticks that open and close a fenced code block.\<close>
  "fence = [backtick, backtick, backtick]"

definition m_fence :: matcher where
  \<comment> \<open>The fenced code block: three backticks, an optional word, a line feed, the code up
      to the next three backticks (the lazy \<open>[\s\S]*?\<close>), replaced by the callback's
      \<open><pre><code>escaped</code></pre>\<close>.\<close>
  "m_fence bol s =
     (if startsWith fence s then
        (let lang = takeWhile is_word_char (drop 3 s);
             a = dropWhile is_word_char (drop 3 s)
         in if startsWith [LF] a then
              (case find_index fence (drop 1 a) of
                 None \<Rightarrow> None
               | Some k \<Rightarrow>
                   Some (''<pre><code>'' @ escape_html (take k (drop 1 a)) @ ''</code></pre>'',
                         3 + length lang + 1 + k + 3))
            else None)
      else None)"

definition m_inline_code :: matcher where
  \<comment> \<open>A backtick, one or more characters other than the backtick, a backtick; replaced
      by \<open><code>$1</code>\<close>.\<close>
  "m_inline_code bol s =
     (case s of
        [] \<Rightarrow> None
      | c # a \<Rightarrow>
          (let t = takeWhile (\<lambda>x. x \<noteq> backtick) a
           in if c = backtick \<and> t \<noteq> [] \<and> startsWith [backtick] (drop (length t) a)
              then Some (''<code>'' @ t @ ''</code>'', length t + 2)
              else None))"

definition m_link :: matcher where
  \<comment> \<open>\<open>/\[([^\]]+)\]\(([^)]+)\)/g\<close> replaced by
      \<open><a href="$2" target="_blank" rel="noopener noreferrer">$1</a>\<close>\<close>
  "m_link bol s =
     (case s of
        [] \<Rightarrow> None
      | c # a \<Rightarrow>
          (let t = takeWhile (\<lambda>x. x \<noteq> CHR '']'') a;
               b = drop (length t) a;
               u = takeWhile (\<lambda>x. x \<noteq> CHR '')'') (drop 2 b)
           in if c = CHR ''['' \<and> t \<noteq> [] \<and> startsWith ''](''  b \<and> u \<noteq> []
                 \<and> startsWith '')'' (drop (length u) (drop 2 b))
              then Some (''<a href='' @ [CHR 0x22] @ u @ [CHR 0x22] @ '' target='' @ [CHR 0x22]
                         @ ''_blank'' @ [CHR 0x22] @ '' rel='' @ [CHR 0x22] @ ''noopener noreferrer''
                         @ [CHR 0x22] @ ''>'' @ t @ ''</a>'',
                         1 + length t + 2 + length u + 1)
              else None))"

definition m_image :: matcher where
  \<comment> \<open>\<open>/!\[([^\]]*)\]\(([^)]+)\)/g\<close> replaced by \<open><img src="$2" alt="$1">\<close>\<close>
  "m_image bol s =
     (let a = drop 2 s;
          t = takeWhile (\<lambda>x. x \<noteq> CHR '']'') a;
          b = drop (length t) a;
          u = takeWhile (\<lambda>x. x \<noteq> CHR '')'') (drop 2 b)
      in if startsWith ''!['' s \<and> startsWith ''](''  b \<and> u \<noteq> []
            \<and> startsWith '')'' (drop (length u) (drop 2 b))
         then Some (''<img src='' @ [CHR 0x22] @ u @ [CHR 0x22] @ '' alt='' @ [CHR 0x22] @ t
                    @ [CHR 0x22] @ ''>'',
                    2 + length t + 2 + length u + 1)
         else None)"

definition m_literal :: "string \<Rightarrow> string \<Rightarrow> matcher" where
  \<comment> \<open>A fixed text replaced by a fixed text.\<close>
  "m_literal lit r bol s = (if startsWith lit s then Some (r, length lit) else None)"

definition m_nested_paragraph :: matcher where
  \<comment> \<open>\<open>/<p>(<[^>]+>)<\/p>/g\<close> replaced by \<open>$1\<close>\<close>
  "m_nested_paragraph bol s =
     (let t = takeWhile (\<lambda>x. x \<noteq> CHR ''>'') (drop 4 s)
      in if startsWith ''<p><'' s \<and> t \<noteq> [] \<and> startsWith ''></p>'' (drop (length t) (drop 4 s))
         then Some (''<'' @ t @ ''>'', 4 + length t + 5)
         else None)"

subsection \<open>Blocks\<close>

function split_blocks :: "string \<Rightarrow> string list" where
  \<comment> \<open>\<open>html.split(/\n\n+/)\<close>\<close>
  "split_blocks [] = [[]]"
| "split_blocks (c # cs) =
     (if c = LF \<and> startsWith [LF] cs then [] # split_blocks (dropWhile (\<lambda>x. x = LF) cs)
      else cons_first c (split_blocks cs))"
  by pat_completeness auto
termination
  by (relation "measure length") (auto simp: less_Suc_eq_le length_dropWhile_le)

definition startsWith_ci :: "string \<Rightarrow> string \<Rightarrow> bool" where
  \<comment> \<open>A prefix test under the \<open>i\<close> flag, for a pattern of ASCII letters.\<close>
  "startsWith_ci p s = startsWith (map ascii_lower p) (map ascii_lower (take (length p) s))"

definition is_block_element :: "string \<Rightarrow> bool" where
  \<comment> \<open>\<open>/^<(h[1-6]|pre|ul|ol|blockquote|hr|div)/i.test(block)\<close>\<close>
  "is_block_element block =
     (case block of
        [] \<Rightarrow> False
      | c # a \<Rightarrow>
          c = CHR ''<''
          \<and> ((startsWith_ci ''h'' a \<and> (case drop 1 a of [] \<Rightarrow> False
                  | d # r \<Rightarrow> d \<in> set ''123456''))
             \<or> startsWith_ci ''pre'' a \<or> startsWith_ci ''ul'' a \<or> startsWith_ci ''ol'' a
             \<or> startsWith_ci ''blockquote'' a \<or> startsWith_ci ''hr'' a \<or> startsWith_ci ''div'' a))"

definition render_block :: "string \<Rightarrow> string" where
  \<comment> \<open>The callback of \<open>blocks.map\<close>.\<close>
  "render_block block0 =
     (let block = trim block0 in
      if block = [] then []
      else if is_block_element block then block
      else ''<p>'' @ concat (map (\<lambda>c. if c = LF then ''<br>'' else [c]) block) @ ''</p>'')"

subsection \<open>The pipeline\<close>

definition parseMarkdown :: "string \<Rightarrow> string" where
  "parseMarkdown markdown =
     (if markdown = [] then []
      else
        (let html = markdown;
             html = gsub m_fence True html;
             html = gsub (m_line_prefix ''###### '' ''<h6>'' ''</h6>'') True html;
             html = gsub (m_line_prefix ''##### '' ''<h5>'' ''</h5>'') True html;
             html = gsub (m_line_prefix ''#### '' ''<h4>'' ''</h4>'') True html;
             html = gsub (m_line_prefix ''### '' ''<h3>'' ''</h3>'') True html;
             html = gsub (m_line_prefix ''## '' ''<h2>'' ''</h2>'') True html;
             html = gsub (m_line_prefix ''# '' ''<h1>'' ''</h1>'') True html;
             html = gsub (m_line_exact ''---'' ''<hr>'') True html;
             html = gsub (m_line_exact ''***'' ''<hr>'') True html;
             html = gsub (m_line_prefix ''> '' ''<blockquote>'' ''</blockquote>'') True html;
             html = gsub m_ordered_item True html;
             html = gsub m_unordered_item True html;
             html = gsub m_list_wrap True html;
             html = gsub (m_span ''***'' ''<strong><em>'' ''</em></strong>'') True html;
             html = gsub (m_span ''**'' ''<strong>'' ''</strong>'') True html;
             html = gsub (m_span ''__'' ''<strong>'' ''</strong>'') True html;
             html = gsub (m_span ''*'' ''<em>'' ''</em>'') True html;
             html = gsub (m_span ''_'' ''<em>'' ''</em>'') True html;
             html = gsub m_inline_code True html;
             html = gsub m_link True html;
             html = gsub m_image True html;
             html = join_with [LF] (map render_block (split_blocks html));
             html = gsub (m_literal ''<p></p>'' []) True html;
             html = gsub m_nested_paragraph True html
         in html))"

subsection \<open>Text that no pattern of the pipeline matches\<close>

definition plain_char :: "char \<Rightarrow> bool" where
  \<comment> \<open>A character with which none of the inline patterns starts, and which ends no
      line.\<close>
  "plain_char c =
     (c \<noteq> backtick \<and> c \<noteq> CHR ''*'' \<and> c \<noteq> CHR ''_'' \<and> c \<noteq> CHR ''['' \<and> c \<noteq> CHR ''<''
      \<and> c \<noteq> LF \<and> c \<noteq> CR)"

definition line_start_char :: "char \<Rightarrow> bool" where
  \<comment> \<open>A character with which one of the line patterns starts.\<close>
  "line_start_char c =
     (c = CHR ''#'' \<or> c = CHR ''-'' \<or> c = CHR ''*'' \<or> c = CHR ''+'' \<or> c = CHR ''>'' \<or> is_digit c)"

fun calm :: "char \<Rightarrow> bool \<Rightarrow> string \<Rightarrow> bool" where
  \<comment> \<open>A text made of plain characters, of \<open><\<close> not followed by the character \<open>f\<close>, and
      of line feeds; the flag says that the text starts a line, where a plain character
      must not start a line pattern.\<close>
  "calm f bol [] = True"
| "calm f bol (c # cs) =
     (if c = CHR ''<'' then (case cs of [] \<Rightarrow> True | d # r \<Rightarrow> d \<noteq> f) \<and> calm f False cs
      else if c = LF then calm f True cs
      else plain_char c \<and> (bol \<longrightarrow> \<not> line_start_char c) \<and> calm f False cs)"

definition quiet_pass :: "char \<Rightarrow> matcher \<Rightarrow> bool" where
  \<comment> \<open>A pattern that matches nowhere in a calm text: the only \<open><\<close> at which it can match
      is followed by \<open>f\<close>.\<close>
  "quiet_pass f m =
     ((\<forall>b c r. c \<noteq> f \<longrightarrow> m b (CHR ''<'' # c # r) = None)
      \<and> (\<forall>b. m b ''<'' = None)
      \<and> (\<forall>b r. m b (LF # r) = None)
      \<and> (\<forall>c r. plain_char c \<and> calm f False r \<longrightarrow> m False (c # r) = None)
      \<and> (\<forall>c r. plain_char c \<and> \<not> line_start_char c \<and> calm f False r \<longrightarrow> m True (c # r) = None)
      \<and> (\<forall>b. m b [] = None))"


section \<open>An example run\<close>

text \<open>
  A concrete engine and a concrete file system, on which the theorems below are
  instantiated: strings are compared by code units, the rule directory of the first
  stack holds two guides and a file that is no guide, and a snapshot of an earlier run
  exists.
\<close>

definition example_lib :: js_lib where
  "example_lib = \<lparr>localeCompare = code_unit_compare, toUpperCase = map ascii_upper,
     stringify = generatedAt, now = ''2025-01-01T00:00:00.000Z''\<rparr>"

definition example_fs :: filesystem where
  "example_fs =
     \<lparr>entries =
        [''/repo/Typescript/.cursor/rules'' \<mapsto> Dir [''b-guide.mdc'', ''a-guide.mdc'', ''README.md''],
         ''/repo/Typescript/.cursor/rules/b-guide.mdc'' \<mapsto> File ''# B'',
         ''/repo/Typescript/.cursor/rules/a-guide.mdc'' \<mapsto> File ''---\<newline>globs: *.ts\<newline>---\<newline># A'',
         ''/repo/docs/data/guides.json'' \<mapsto> File ''old snapshot'',
         ''/repo/docs/index.html'' \<mapsto> File ''<html></html>'',
         ''/repo/docs/notes.txt'' \<mapsto> File ''notes'',
         ''/repo/docs/private.json'' \<mapsto> File ''{}'',
         ''/repo/docs/icons'' \<mapsto> Dir [''rust.png'']],
      no_access = (\<lambda>p. p = ''/repo/docs/private.json'')\<rparr>"



definition example_stack :: stack_data where
  "example_stack =
     \<lparr>config = hd STACKS, readme = [],
      guides = [make_guide example_lib ''a-guide.mdc'' ''---\<newline>globs: *.ts\<newline>---\<newline># A'',
                make_guide example_lib ''b-guide.mdc'' ''# B'']\<rparr>"

section \<open>Facts about the string operations\<close>


lemma find_index_None_iff:
  "n \<noteq> [] \<Longrightarrow> find_index n s = None \<longleftrightarrow> (\<forall>j. \<not> startsWith n (drop j s))"
proof (induction s)
  case Nil
  then show ?case by (cases n) auto
next
  case (Cons c cs)
  show ?case
  proof (cases "startsWith n (c # cs)")
    case True
    then have "startsWith n (drop 0 (c # cs))" by simp
    then show ?thesis using True by (metis find_index.simps(2) option.distinct(1))
  next
    case False
    have "(\<forall>j. \<not> startsWith n (drop j (c # cs))) \<longleftrightarrow> (\<forall>j. \<not> startsWith n (drop j cs))"
    proof
      assume a: "\<forall>j. \<not> startsWith n (drop j (c # cs))"
      show "\<forall>j. \<not> startsWith n (drop j cs)"
      proof
        fix j from a have "\<not> startsWith n (drop (Suc j) (c # cs))" by blast
        then show "\<not> startsWith n (drop j cs)" by simp
      qed
    next
      assume a: "\<forall>j. \<not> startsWith n (drop j cs)"
      show "\<forall>j. \<not> startsWith n (drop j (c # cs))"
      proof
        fix j show "\<not> startsWith n (drop j (c # cs))"
          using a False by (cases j) auto
      qed
    qed
    then show ?thesis using False Cons by simp
  qed
qed

lemma find_index_Some_iff:
  "n \<noteq> [] \<Longrightarrow> find_index n s = Some i \<longleftrightarrow>
     (startsWith n (drop i s) \<and> (\<forall>j<i. \<not> startsWith n (drop j s)))"
proof (induction s arbitrary: i)
  case Nil
  then show ?case by (cases n) auto
next
  case (Cons c cs)
  show ?case
  proof (cases "startsWith n (c # cs)")
    case True
    then show ?thesis by (cases i) auto
  next
    case False
    show ?thesis
    proof (cases i)
      case 0
      then show ?thesis using False by simp
    next
      case (Suc k)
      have "(\<forall>j<Suc k. \<not> startsWith n (drop j (c # cs))) \<longleftrightarrow> (\<forall>j<k. \<not> startsWith n (drop j cs))"
      proof
        assume a: "\<forall>j<Suc k. \<not> startsWith n (drop j (c # cs))"
        show "\<forall>j<k. \<not> startsWith n (drop j cs)"
        proof (intro allI impI)
          fix j assume "j < k"
          with a have "\<not> startsWith n (drop (Suc j) (c # cs))" by blast
          then show "\<not> startsWith n (drop j cs)" by simp
        qed
      next
        assume a: "\<forall>j<k. \<not> startsWith n (drop j cs)"
        show "\<forall>j<Suc k. \<not> startsWith n (drop j (c # cs))"
        proof (intro allI impI)
          fix j assume "j < Suc k"
          then show "\<not> startsWith n (drop j (c # cs))"
            using a False by (cases j) auto
        qed
      qed
      then show ?thesis using False Suc Cons.IH[OF Cons.prems, of k] by auto
    qed
  qed
qed

lemma indexOf_None_iff:
  "n \<noteq> [] \<Longrightarrow> indexOf n from s = None \<longleftrightarrow> (\<forall>i\<ge>from. \<not> startsWith n (drop i s))"
proof -
  assume n: "n \<noteq> []"
  have "(\<forall>j. \<not> startsWith n (drop j (drop from s))) \<longleftrightarrow> (\<forall>i\<ge>from. \<not> startsWith n (drop i s))"
  proof
    assume a: "\<forall>j. \<not> startsWith n (drop j (drop from s))"
    show "\<forall>i\<ge>from. \<not> startsWith n (drop i s)"
    proof (intro allI impI)
      fix i assume "from \<le> i"
      then have "drop i s = drop (i - from) (drop from s)" by simp
      then show "\<not> startsWith n (drop i s)" using a by metis
    qed
  next
    assume a: "\<forall>i\<ge>from. \<not> startsWith n (drop i s)"
    show "\<forall>j. \<not> startsWith n (drop j (drop from s))"
    proof
      fix j have "drop j (drop from s) = drop (j + from) s" by simp
      then show "\<not> startsWith n (drop j (drop from s))" using a by simp
    qed
  qed
  then show ?thesis using find_index_None_iff[OF n, of "drop from s"] by (simp add: indexOf_def)
qed

lemma indexOf_Some_iff:
  "n \<noteq> [] \<Longrightarrow> indexOf n from s = Some e \<longleftrightarrow>
     (from \<le> e \<and> startsWith n (drop e s) \<and> (\<forall>i. from \<le> i \<and> i < e \<longrightarrow> \<not> startsWith n (drop i s)))"
proof -
  assume n: "n \<noteq> []"
  show ?thesis
  proof
    assume "indexOf n from s = Some e"
    then obtain k where k: "find_index n (drop from s) = Some k" and e: "e = k + from"
      by (auto simp: indexOf_def)
    from k have s: "startsWith n (drop k (drop from s))" and m: "\<forall>j<k. \<not> startsWith n (drop j (drop from s))"
      using find_index_Some_iff[OF n] by auto
    have "\<forall>i. from \<le> i \<and> i < e \<longrightarrow> \<not> startsWith n (drop i s)"
    proof (intro allI impI)
      fix i assume i: "from \<le> i \<and> i < e"
      then have "i - from < k" using e by arith
      with m have "\<not> startsWith n (drop (i - from) (drop from s))" by blast
      then show "\<not> startsWith n (drop i s)" using i by simp
    qed
    then show "from \<le> e \<and> startsWith n (drop e s) \<and> (\<forall>i. from \<le> i \<and> i < e \<longrightarrow> \<not> startsWith n (drop i s))"
      using s e by (simp add: add.commute)
  next
    assume a: "from \<le> e \<and> startsWith n (drop e s) \<and> (\<forall>i. from \<le> i \<and> i < e \<longrightarrow> \<not> startsWith n (drop i s))"
    have 1: "startsWith n (drop (e - from) (drop from s))" using a by simp
    have 2: "\<forall>j<e - from. \<not> startsWith n (drop j (drop from s))"
    proof (intro allI impI)
      fix j assume "j < e - from"
      then have "from \<le> j + from \<and> j + from < e" by arith
      with a have "\<not> startsWith n (drop (j + from) s)" by blast
      then show "\<not> startsWith n (drop j (drop from s))" by simp
    qed
    from 1 2 have "find_index n (drop from s) = Some (e - from)"
      using find_index_Some_iff[OF n] by blast
    then show "indexOf n from s = Some e" using a by (simp add: indexOf_def)
  qed
qed

lemmas js_string_defs =
  LF_def CR_def is_ws_def is_line_terminator_def is_quote_def indexOf_def slice_def
  trim_def trimStart_def trimEnd_def endsWith_def

lemmas frontmatter_defs =
  parseFrontmatter_def fm_line_def fm_set_def fm_push_def fm_array_def fm_empty_def
  strip_quotes_def strip_ends_def scalar_value_def

section \<open>Facts about paths\<close>

lemma cons_first_nonempty: "cons_first c ls \<noteq> []"
  by (cases ls) auto

lemma split_on_nonempty: "split_on d s \<noteq> []"
  by (induction s) (auto simp: cons_first_nonempty)

lemma cons_first_append: "ls \<noteq> [] \<Longrightarrow> cons_first c (ls @ ms) = cons_first c ls @ ms"
  by (cases ls) auto

lemma split_on_append:
  "split_on d (a @ d # b) = split_on d a @ split_on d b"
  by (induction a) (auto simp: cons_first_append split_on_nonempty)

lemma split_on_plain: "d \<notin> set s \<Longrightarrow> split_on d s = [s]"
  by (induction s) auto

lemma normalize_segments_append:
  "normalize_segments al acc (xs @ ys) = normalize_segments al (rev (normalize_segments al acc xs)) ys"
  by (induction al acc xs rule: normalize_segments.induct) (auto split: list.splits)

lemma join_with_snoc:
  "join_with sep (xs @ [y]) = (if xs = [] then y else join_with sep xs @ sep @ y)"
  by (induction sep xs rule: join_with.induct) auto

lemma path_normalize_snoc:
  assumes "plain_segment b"
  shows "\<exists>p. path_normalize (a @ CHR ''/'' # b) = p @ b"
proof -
  let ?j = "a @ CHR ''/'' # b"
  have b: "b \<noteq> []" "CHR ''/'' \<notin> set b" "b \<noteq> ''.''" "b \<noteq> ''..''" using assms by (auto simp: plain_segment_def)
  have sp: "split_on (CHR ''/'') ?j = split_on (CHR ''/'') a @ [b]"
    by (simp add: split_on_append split_on_plain[OF b(2)])
  obtain acc where acc: "normalize_segments (hd ?j \<noteq> CHR ''/'') [] (split_on (CHR ''/'') a) = acc" by blast
  have ns: "normalize_segments (hd ?j \<noteq> CHR ''/'') [] (split_on (CHR ''/'') ?j) = acc @ [b]"
    using b acc by (simp add: sp normalize_segments_append)
  have lastb: "last ?j = last b" using b by simp
  have nl: "last b \<noteq> CHR ''/''" using b by (metis last_in_set)
  have q: "join_with ''/'' (acc @ [b]) \<noteq> []" using b by (simp add: join_with_snoc)
  have "\<exists>p. join_with ''/'' (acc @ [b]) = p @ b" by (simp add: join_with_snoc)
  then obtain p where p: "join_with ''/'' (acc @ [b]) = p @ b" by blast
  have "path_normalize ?j = (if hd ?j = CHR ''/'' then ''/'' else []) @ p @ b"
    using q p nl lastb ns by (simp add: path_normalize_def Let_def)
  then show ?thesis by (metis append.assoc)
qed

lemma path_normalize_plain:
  assumes "plain_segment b"
  shows "\<exists>p. path_normalize b = p @ b"
proof -
  have b: "b \<noteq> []" "CHR ''/'' \<notin> set b" "b \<noteq> ''.''" "b \<noteq> ''..''" using assms by (auto simp: plain_segment_def)
  have 1: "hd b \<noteq> CHR ''/''" "last b \<noteq> CHR ''/''" using b by (metis hd_in_set, metis last_in_set)
  show ?thesis using b 1 by (simp add: path_normalize_def Let_def split_on_plain)
qed

lemma path_join_snoc:
  assumes "plain_segment b"
  shows "\<exists>p. path_join (args @ [b]) = p @ b"
proof -
  have b: "b \<noteq> []" using assms by (simp add: plain_segment_def)
  let ?f = "filter (\<lambda>a. a \<noteq> []) args"
  show ?thesis
  proof (cases "?f = []")
    case True
    then have "path_join (args @ [b]) = path_normalize b" using b by (simp add: path_join_def)
    moreover have "\<exists>p. path_normalize b = p @ b" using path_normalize_plain[OF assms] by blast
    ultimately show ?thesis by simp
  next
    case False
    then have "path_join (args @ [b]) = path_normalize (join_with ''/'' ?f @ ''/'' @ b)"
      using b by (simp add: path_join_def join_with_snoc)
    then show ?thesis using path_normalize_snoc[OF assms] by simp
  qed
qed









section \<open>Facts about sorting\<close>

lemma cuc_range: "code_unit_compare a b = -1 \<or> code_unit_compare a b = 0 \<or> code_unit_compare a b = 1"
  by (induction a b rule: code_unit_compare.induct) auto

lemma cuc_antisym: "(code_unit_compare a b < 0) = (0 < code_unit_compare b a)"
  by (induction a b rule: code_unit_compare.induct) auto

lemma cuc_Cons_le:
  "code_unit_compare (a # as) (b # bs) \<le> 0 \<longleftrightarrow>
     (of_char a :: nat) < of_char b \<or> ((of_char a :: nat) = of_char b \<and> code_unit_compare as bs \<le> 0)"
  by auto

lemma cuc_trans: "code_unit_compare a b \<le> 0 \<Longrightarrow> code_unit_compare b c \<le> 0 \<Longrightarrow> code_unit_compare a c \<le> 0"
proof (induction a arbitrary: b c)
  case Nil
  then show ?case by (cases c) auto
next
  case (Cons x xs)
  from Cons.prems(1) obtain y ys where b: "b = y # ys" by (cases b) auto
  from Cons.prems(2) b obtain z zs where c: "c = z # zs" by (cases c) auto
  have 1: "(of_char x :: nat) < of_char y \<or> ((of_char x :: nat) = of_char y \<and> code_unit_compare xs ys \<le> 0)"
    using Cons.prems(1) unfolding b cuc_Cons_le .
  have 2: "(of_char y :: nat) < of_char z \<or> ((of_char y :: nat) = of_char z \<and> code_unit_compare ys zs \<le> 0)"
    using Cons.prems(2) unfolding b c cuc_Cons_le .
  have "(of_char x :: nat) < of_char z \<or> ((of_char x :: nat) = of_char z \<and> code_unit_compare xs zs \<le> 0)"
  proof (cases "(of_char x :: nat) = of_char y \<and> (of_char y :: nat) = of_char z")
    case True
    then have "code_unit_compare xs ys \<le> 0" "code_unit_compare ys zs \<le> 0" using 1 2 by auto
    then have "code_unit_compare xs zs \<le> 0" using Cons.IH by blast
    then show ?thesis using True by simp
  next
    case False
    then have "(of_char x :: nat) < of_char z" using 1 2 by linarith
    then show ?thesis by simp
  qed
  then show ?case unfolding c cuc_Cons_le .
qed

lemma cuc_consistent: "consistent_comparator code_unit_compare"
  unfolding consistent_comparator_def using cuc_antisym cuc_trans by blast

lemma insert_sorted_mset: "mset (insert_sorted cmp x ys) = add_mset x (mset ys)"
  by (induction ys) auto

lemma array_sort_mset: "mset (array_sort cmp xs) = mset xs"
  by (induction xs) (auto simp: array_sort_def insert_sorted_mset)

lemma array_sort_set: "set (array_sort cmp xs) = set xs"
  using array_sort_mset[of cmp xs] by (metis set_mset_mset)

lemma insert_sorted_set: "set (insert_sorted cmp x ys) = insert x (set ys)"
  using insert_sorted_mset[of cmp x ys] by (metis set_mset_mset set_mset_add_mset_insert)

lemma insert_sorted_sorted:
  assumes tot: "\<And>a b. cmp a b \<le> 0 \<or> cmp b a \<le> 0"
    and trans: "\<And>a b c. cmp a b \<le> 0 \<Longrightarrow> cmp b c \<le> 0 \<Longrightarrow> cmp a c \<le> 0"
  shows "sorted_wrt (\<lambda>a b. cmp a b \<le> 0) ys \<Longrightarrow> sorted_wrt (\<lambda>a b. cmp a b \<le> 0) (insert_sorted cmp x ys)"
proof (induction ys)
  case Nil
  then show ?case by simp
next
  case (Cons y ys)
  show ?case
  proof (cases "cmp x y \<le> 0")
    case True
    then have "\<forall>z\<in>set ys. cmp x z \<le> 0" using Cons.prems trans by auto
    then show ?thesis using True Cons.prems by simp
  next
    case False
    then have "cmp y x \<le> 0" using tot[of x y] by simp
    then show ?thesis using False Cons by (simp add: insert_sorted_set)
  qed
qed

lemma array_sort_sorted:
  assumes tot: "\<And>a b. cmp a b \<le> 0 \<or> cmp b a \<le> 0"
    and trans: "\<And>a b c. cmp a b \<le> 0 \<Longrightarrow> cmp b c \<le> 0 \<Longrightarrow> cmp a c \<le> 0"
  shows "sorted_wrt (\<lambda>a b. cmp a b \<le> 0) (array_sort cmp xs)"
proof (induction xs)
  case Nil
  then show ?case by (simp add: array_sort_def)
next
  case (Cons x xs)
  have "array_sort cmp (x # xs) = insert_sorted cmp x (array_sort cmp xs)"
    by (simp add: array_sort_def)
  then show ?case using insert_sorted_sorted[OF tot trans Cons] by simp
qed

lemma insert_sorted_filter:
  assumes "P x \<Longrightarrow> \<forall>y\<in>set ys. P y \<longrightarrow> cmp x y \<le> 0"
  shows "filter P (insert_sorted cmp x ys) = (if P x then x # filter P ys else filter P ys)"
  using assms
proof (induction ys)
  case Nil
  then show ?case by simp
next
  case (Cons y ys)
  show ?case
  proof (cases "cmp x y \<le> 0")
    case True
    then show ?thesis by simp
  next
    case False
    have ih: "filter P (insert_sorted cmp x ys) = (if P x then x # filter P ys else filter P ys)"
      using Cons by simp
    have "P x \<Longrightarrow> \<not> P y" using Cons.prems False by auto
    then show ?thesis using False ih by auto
  qed
qed

lemma array_sort_filter:
  assumes "\<forall>x\<in>set xs. \<forall>y\<in>set xs. P x \<and> P y \<longrightarrow> cmp x y \<le> 0"
  shows "filter P (array_sort cmp xs) = filter P xs"
  using assms
proof (induction xs)
  case Nil
  then show ?case by (simp add: array_sort_def)
next
  case (Cons x xs)
  have s: "array_sort cmp (x # xs) = insert_sorted cmp x (array_sort cmp xs)"
    by (simp add: array_sort_def)
  have ih: "filter P (array_sort cmp xs) = filter P xs" using Cons by simp
  have "P x \<Longrightarrow> \<forall>y\<in>set (array_sort cmp xs). P y \<longrightarrow> cmp x y \<le> 0"
    using Cons.prems by (simp add: array_sort_set)
  then show ?case using insert_sorted_filter[of P x "array_sort cmp xs" cmp] s ih by simp
qed

section \<open>Properties of the header parser\<close>

text \<open>
  Claim C3, as the code has it. An input that does not start with \<open>---\<close>, and an input
  that starts with \<open>---\<close> in which no line feed followed by \<open>---\<close> occurs at index 3 or
  later, is returned whole as the body, with an empty header. The function has no error
  branch: every operation it calls is total on strings.
\<close>

theorem parseFrontmatter_without_header:
  assumes "\<not> startsWith ''---'' doc
     \<or> (\<forall>i\<ge>3. \<not> startsWith (LF # ''---'') (drop i doc))"
  shows "parseFrontmatter doc = (fm_empty, doc)"
proof (cases "startsWith ''---'' doc")
  case False
  then show ?thesis by (simp add: parseFrontmatter_def)
next
  case True
  with assms have "\<forall>i\<ge>3. \<not> startsWith (LF # ''---'') (drop i doc)" by blast
  then have "indexOf (LF # ''---'') 3 doc = None"
    using indexOf_None_iff[of "LF # ''---''" 3 doc] by simp
  then show ?thesis using True by (simp add: parseFrontmatter_def)
qed

theorem parseFrontmatter_without_header_witness:
  "parseFrontmatter ''# Title'' = (fm_empty, ''# Title'')
   \<and> parseFrontmatter ''---\<newline>a: b\<newline>'' = (fm_empty, ''---\<newline>a: b\<newline>'')"
proof -
  have 1: "\<not> startsWith ''---'' ''# Title''" by simp
  have "indexOf (LF # ''---'') 3 ''---\<newline>a: b\<newline>'' = None"
    by (simp add: js_string_defs)
  moreover have "LF # ''---'' \<noteq> []" by simp
  ultimately have 2: "\<forall>i\<ge>3. \<not> startsWith (LF # ''---'') (drop i ''---\<newline>a: b\<newline>'')"
    using indexOf_None_iff[of "LF # ''---''" 3 "''---\<newline>a: b\<newline>''"] by blast
  show ?thesis
    using parseFrontmatter_without_header[of "''# Title''"] 1
      parseFrontmatter_without_header[of "''---\<newline>a: b\<newline>''"] 2
    by blast
qed

text \<open>
  Claim C3 as stated fails: the input below starts with the marker and none of its later
  lines is \<open>---\<close>, yet its fourth line starts with \<open>---\<close>, so the code ends the header
  there, returns a header with the key \<open>a\<close> and a body that is not the input.
\<close>

theorem parseFrontmatter_unclosed_counterexample:
  "startsWith ''---'' ''---\<newline>a: b\<newline>----\<newline>body''
   \<and> split_lines ''---\<newline>a: b\<newline>----\<newline>body'' = [''---'', ''a: b'', ''----'', ''body'']
   \<and> parseFrontmatter ''---\<newline>a: b\<newline>----\<newline>body''
       = (\<lparr>props = [''a'' \<mapsto> Str ''b''], proto = None\<rparr>, ''-\<newline>body'')
   \<and> parseFrontmatter ''---\<newline>a: b\<newline>----\<newline>body''
       \<noteq> (fm_empty, ''---\<newline>a: b\<newline>----\<newline>body'')"
  by (simp add: js_string_defs frontmatter_defs Let_def)

text \<open>
  Claim C4, as the code has it. When the input starts with \<open>---\<close>, the header block ends
  at the least index \<open>e \<ge> 3\<close> at which a line feed followed by \<open>---\<close> occurs, whatever
  follows these four characters on that line. The header is read from the trimmed text
  between index 3 and \<open>e\<close>; the body is the text after index \<open>e + 4\<close> with all its
  leading white space removed, so it is empty or starts with a character that is not
  white space.
\<close>

theorem parseFrontmatter_header_end:
  assumes "startsWith ''---'' doc"
    and "3 \<le> e"
    and "startsWith (LF # ''---'') (drop e doc)"
    and "\<forall>i. 3 \<le> i \<and> i < e \<longrightarrow> \<not> startsWith (LF # ''---'') (drop i doc)"
  shows "parseFrontmatter doc =
           (fst (foldl fm_line (fm_empty, None) (split_lines (trim (slice 3 e doc)))),
            dropWhile is_ws (drop (e + 4) doc))
         \<and> (snd (parseFrontmatter doc) = [] \<or> \<not> is_ws (hd (snd (parseFrontmatter doc))))"
proof -
  have "indexOf (LF # ''---'') 3 doc = Some e"
    using assms(2-4) indexOf_Some_iff[of "LF # ''---''" 3 doc e] by simp
  then have eq: "parseFrontmatter doc =
      (fst (foldl fm_line (fm_empty, None) (split_lines (trim (slice 3 e doc)))),
       dropWhile is_ws (drop (e + 4) doc))"
    using assms(1) by (simp add: parseFrontmatter_def trimStart_def Let_def)
  have "dropWhile is_ws xs = [] \<or> \<not> is_ws (hd (dropWhile is_ws xs))" for xs
    using hd_dropWhile[of is_ws xs] by blast
  then show ?thesis using eq by simp
qed

theorem parseFrontmatter_header_end_witness:
  "parseFrontmatter ''---\<newline>a: b\<newline>---\<newline>\<newline>body''
     = (\<lparr>props = [''a'' \<mapsto> Str ''b''], proto = None\<rparr>, ''body'')"
proof -
  let ?c = "''---\<newline>a: b\<newline>---\<newline>\<newline>body''"
  have "indexOf (LF # ''---'') 3 ?c = Some 8"
    by (simp add: js_string_defs)
  moreover have "LF # ''---'' \<noteq> []" by simp
  ultimately have h: "3 \<le> (8::nat)" "startsWith (LF # ''---'') (drop 8 ?c)"
      "\<forall>i. 3 \<le> i \<and> i < 8 \<longrightarrow> \<not> startsWith (LF # ''---'') (drop i ?c)"
    using indexOf_Some_iff[of "LF # ''---''" 3 ?c 8] by blast+
  have s: "startsWith ''---'' ?c" by simp
  have "parseFrontmatter ?c =
      (fst (foldl fm_line (fm_empty, None) (split_lines (trim (slice 3 8 ?c)))),
       dropWhile is_ws (drop (8 + 4) ?c))"
    using parseFrontmatter_header_end[OF s h] by blast
  then show ?thesis
    by (simp add: js_string_defs frontmatter_defs Let_def)
qed

text \<open>
  Claim C4 as stated fails twice. In the first input the line \<open>--- extra\<close> only starts
  with the marker, and the code ends the header there: the key \<open>c\<close> of the next line is
  not read and the body starts with \<open>extra\<close>. In the second input the first line of the
  body is indented, and the code removes the indentation with the blank line.
\<close>

theorem parseFrontmatter_header_end_counterexample:
  "parseFrontmatter ''---\<newline>a: b\<newline>--- extra\<newline>c: d\<newline>---\<newline>body''
     = (\<lparr>props = [''a'' \<mapsto> Str ''b''], proto = None\<rparr>, ''extra\<newline>c: d\<newline>---\<newline>body'')
   \<and> parseFrontmatter ''---\<newline>a: b\<newline>---\<newline>\<newline>  body''
     = (\<lparr>props = [''a'' \<mapsto> Str ''b''], proto = None\<rparr>, ''body'')"
  by (simp add: js_string_defs frontmatter_defs Let_def)

section \<open>Properties of the document assembler\<close>

lemmas path_defs = path_join_def path_normalize_def stack_dir_def rules_dir_def data_dir_def snapshot_path_def
lemmas fs_defs = fs_readdir_def fs_readFile_def fs_mkdir_def fs_writeFile_def

lemma make_guide_fileName: "fileName (make_guide lib f t) = f"
  by (simp add: make_guide_def Let_def)

lemma example_rules_dir: "rules_dir ''/repo'' (hd STACKS) = ''/repo/Typescript/.cursor/rules''"
  by (simp add: path_defs STACKS_def)

lemma example_titles:
  "title (make_guide example_lib ''a-guide.mdc'' t) = ''A Guide''"
  "title (make_guide example_lib ''b-guide.mdc'' t) = ''B Guide''"
  by (simp_all add: make_guide_def example_lib_def titleize_def strip_mdc_def capitalize_def
      ascii_lower_def ascii_upper_def Let_def)

lemma example_paths:
  "stack_dir ''/repo'' (hd STACKS) = ''/repo/Typescript''"
  "path_join [''/repo/Typescript'', ''README.md''] = ''/repo/Typescript/README.md''"
  "path_join [''/repo/Typescript/.cursor/rules'', ''b-guide.mdc'']
     = ''/repo/Typescript/.cursor/rules/b-guide.mdc''"
  "path_join [''/repo/Typescript/.cursor/rules'', ''a-guide.mdc'']
     = ''/repo/Typescript/.cursor/rules/a-guide.mdc''"
  by (simp_all add: path_join_def path_normalize_def stack_dir_def STACKS_def)

lemma example_listing:
  "fs_readdir example_fs ''/repo/Typescript/.cursor/rules'' = Inr [''b-guide.mdc'', ''a-guide.mdc'', ''README.md'']"
  "fs_readFile example_fs ''/repo/Typescript/README.md'' = Inl (ReadFileFailed ''/repo/Typescript/README.md'')"
  "fs_readFile example_fs ''/repo/Typescript/.cursor/rules/b-guide.mdc'' = Inr ''# B''"
  "fs_readFile example_fs ''/repo/Typescript/.cursor/rules/a-guide.mdc'' = Inr ''---\<newline>globs: *.ts\<newline>---\<newline># A''"
  by (simp_all add: fs_readdir_def fs_readFile_def example_fs_def)

lemma example_order:
  "guide_compare example_lib (make_guide example_lib ''b-guide.mdc'' s) (make_guide example_lib ''a-guide.mdc'' t) = 1"
  by (simp add: guide_compare_def make_guide_fileName example_titles) (simp add: example_lib_def)

lemma example_build:
  "build_stacks example_lib ''/repo'' example_fs [hd STACKS] = Inr [example_stack]"
  by (simp add: build_stack_def example_rules_dir example_paths example_listing endsWith_def
      array_sort_def example_order example_stack_def)

lemma rules_dir_not_data_dir: "rules_dir repoRoot stack \<noteq> data_dir repoRoot"
proof
  assume eq: "rules_dir repoRoot stack = data_dir repoRoot"
  have "plain_segment ''rules''" "plain_segment ''data''" by (simp_all add: plain_segment_def)
  then obtain p q where
    p: "path_join ([stack_dir repoRoot stack, ''.cursor''] @ [''rules'']) = p @ ''rules''" and
    q: "path_join ([path_join [repoRoot, ''docs'']] @ [''data'']) = q @ ''data''"
    using path_join_snoc by blast
  have "last (rules_dir repoRoot stack) = CHR ''s''" using p by (simp add: rules_dir_def)
  moreover have "last (data_dir repoRoot) = CHR ''a''" using q by (simp add: data_dir_def)
  ultimately show False using eq by simp
qed

lemma endsWith_mdc_not_README: "endsWith ''.mdc'' f \<Longrightarrow> f \<noteq> ''README.md''"
  by (auto simp: endsWith_def)

lemma read_guides_made:
  "read_guides lib fs d files = Inr gs \<Longrightarrow>
     map fileName gs = files \<and> (\<forall>g\<in>set gs. title g = titleize (toUpperCase lib) (fileName g))"
proof (induction files arbitrary: gs)
  case Nil
  then show ?case by simp
next
  case (Cons f fs')
  from Cons.prems obtain raw gs' where
    t: "fs_readFile fs (path_join [d, f]) = Inr raw" and
    r: "read_guides lib fs d fs' = Inr gs'" and
    g: "gs = make_guide lib f raw # gs'"
    by (auto split: sum.splits)
  have "fileName (make_guide lib f raw) = f" "title (make_guide lib f raw) = titleize (toUpperCase lib) f"
    by (simp_all add: make_guide_def Let_def)
  then show ?case using Cons.IH[OF r] g by simp
qed

lemma build_stack_guides:
  assumes "build_stack lib repoRoot fs cfg = Inr sd"
  shows "\<exists>files gs. fs_readdir fs (rules_dir repoRoot cfg) = Inr files
           \<and> read_guides lib fs (rules_dir repoRoot cfg) (filter (endsWith ''.mdc'') files) = Inr gs
           \<and> guides sd = array_sort (guide_compare lib) gs \<and> config sd = cfg"
  using assms by (auto simp: build_stack_def Let_def split: sum.splits)

lemma build_stacks_member:
  "build_stacks lib repoRoot fs cfgs = Inr sds \<Longrightarrow> sd \<in> set sds \<Longrightarrow>
     \<exists>cfg\<in>set cfgs. build_stack lib repoRoot fs cfg = Inr sd"
proof (induction cfgs arbitrary: sds)
  case Nil
  then show ?case by simp
next
  case (Cons c cs)
  from Cons.prems(1) obtain x xs where
    x: "build_stack lib repoRoot fs c = Inr x" and
    xs: "build_stacks lib repoRoot fs cs = Inr xs" and
    s: "sds = x # xs"
    by (auto split: sum.splits)
  show ?case
  proof (cases "sd = x")
    case True
    then show ?thesis using x by auto
  next
    case False
    then have "sd \<in> set xs" using Cons.prems(2) s by simp
    then show ?thesis using Cons.IH[OF xs] by auto
  qed
qed

lemma build_stacks_fails:
  "cfg \<in> set cfgs \<Longrightarrow> build_stack lib repoRoot fs cfg = Inl e \<Longrightarrow>
     \<exists>e'. build_stacks lib repoRoot fs cfgs = Inl e'"
proof (induction cfgs)
  case Nil
  then show ?case by simp
next
  case (Cons c cs)
  show ?case
  proof (cases "build_stack lib repoRoot fs c")
    case (Inl a)
    then show ?thesis by simp
  next
    case (Inr x)
    then have "cfg \<in> set cs" using Cons.prems by auto
    then obtain e' where "build_stacks lib repoRoot fs cs = Inl e'" using Cons by blast
    then show ?thesis using Inr by simp
  qed
qed

lemma built_guides:
  assumes "build_stacks lib repoRoot fs cfgs = Inr sds" and "sd \<in> set sds"
  shows "\<exists>files gs. fs_readdir fs (rules_dir repoRoot (config sd)) = Inr files
           \<and> map fileName gs = filter (endsWith ''.mdc'') files
           \<and> (\<forall>g\<in>set gs. title g = titleize (toUpperCase lib) (fileName g))
           \<and> guides sd = array_sort (guide_compare lib) gs"
proof -
  from build_stacks_member[OF assms] obtain cfg where "build_stack lib repoRoot fs cfg = Inr sd" by blast
  from build_stack_guides[OF this] obtain files gs where
    f: "fs_readdir fs (rules_dir repoRoot cfg) = Inr files" and
    r: "read_guides lib fs (rules_dir repoRoot cfg) (filter (endsWith ''.mdc'') files) = Inr gs" and
    g: "guides sd = array_sort (guide_compare lib) gs" and c: "config sd = cfg"
    by blast
  show ?thesis using f g c read_guides_made[OF r] by blast
qed

lemma map_fileName_mdc:
  assumes "map fileName gs = filter (endsWith ''.mdc'') files" and "g \<in> set gs"
  shows "endsWith ''.mdc'' (fileName g)"
proof -
  have "fileName g \<in> set (map fileName gs)" using assms(2) by simp
  then show ?thesis unfolding assms(1) by simp
qed

text \<open>
  Claim C10. The stacks of the snapshot are \<open>build_stacks lib repoRoot fs STACKS\<close>. Every
  guide of every stack the build assembles has a file name that ends in \<open>.mdc\<close>, so
  none is named \<open>README.md\<close>, and on the guides of a stack the comparator of the sort
  never takes its two overview branches: it is \<open>localeCompare\<close> on the titles.
\<close>

theorem guides_are_mdc_files:
  assumes "build_stacks lib repoRoot fs cfgs = Inr sds" and "sd \<in> set sds" and "g \<in> set (guides sd)"
  shows "endsWith ''.mdc'' (fileName g) \<and> fileName g \<noteq> ''README.md''
         \<and> (\<forall>h\<in>set (guides sd). guide_compare lib g h = localeCompare lib (title g) (title h))"
proof -
  from built_guides[OF assms(1,2)] obtain files gs where
    m: "map fileName gs = filter (endsWith ''.mdc'') files" and
    s: "guides sd = array_sort (guide_compare lib) gs"
    by blast
  have mem: "set (guides sd) = set gs" using s by (simp add: array_sort_set)
  have all: "\<forall>h\<in>set (guides sd). endsWith ''.mdc'' (fileName h)"
    using map_fileName_mdc[OF m] mem by blast
  then have nr: "\<forall>h\<in>set (guides sd). fileName h \<noteq> ''README.md''"
    using endsWith_mdc_not_README by blast
  show ?thesis using all nr assms(3) by (simp add: guide_compare_def)
qed

theorem guides_are_mdc_files_witness:
  "endsWith ''.mdc'' (fileName (make_guide example_lib ''a-guide.mdc'' ''---\<newline>globs: *.ts\<newline>---\<newline># A''))
   \<and> fileName (make_guide example_lib ''a-guide.mdc'' ''---\<newline>globs: *.ts\<newline>---\<newline># A'') \<noteq> ''README.md''
   \<and> guide_compare example_lib
        (make_guide example_lib ''a-guide.mdc'' ''---\<newline>globs: *.ts\<newline>---\<newline># A'')
        (make_guide example_lib ''b-guide.mdc'' ''# B'')
      = localeCompare example_lib
          (title (make_guide example_lib ''a-guide.mdc'' ''---\<newline>globs: *.ts\<newline>---\<newline># A''))
          (title (make_guide example_lib ''b-guide.mdc'' ''# B''))"
proof -
  let ?g = "make_guide example_lib ''a-guide.mdc'' ''---\<newline>globs: *.ts\<newline>---\<newline># A''"
  let ?h = "make_guide example_lib ''b-guide.mdc'' ''# B''"
  have m: "example_stack \<in> set [example_stack]" by simp
  have g: "?g \<in> set (guides example_stack)" and h: "?h \<in> set (guides example_stack)"
    by (simp_all add: example_stack_def)
  from guides_are_mdc_files[OF example_build m g] h show ?thesis by blast
qed

text \<open>
  Claim C7. For a consistent \<open>localeCompare\<close>, the guides of every stack the build
  assembles are sorted with respect to the comparator of the source, which puts a guide
  named \<open>README.md\<close> before every other guide and orders the others by title; they are
  sorted by title under \<open>localeCompare\<close>; and the guides whose titles compare equal to
  any given title appear in the order in which the directory listing gave their files.
\<close>

theorem guides_sorted_by_title:
  assumes "consistent_comparator (localeCompare lib)"
    and "build_stacks lib repoRoot fs cfgs = Inr sds" and "sd \<in> set sds"
  shows "sorted_wrt (\<lambda>a b. guide_compare lib a b \<le> 0) (guides sd)
         \<and> sorted_wrt (\<lambda>a b. localeCompare lib (title a) (title b) \<le> 0) (guides sd)
         \<and> (\<exists>files. fs_readdir fs (rules_dir repoRoot (config sd)) = Inr files
              \<and> (\<forall>t. map fileName (filter (\<lambda>g. localeCompare lib (title g) t = 0) (guides sd))
                     = filter (\<lambda>f. localeCompare lib (titleize (toUpperCase lib) f) t = 0)
                         (filter (endsWith ''.mdc'') files)))"
proof -
  let ?lc = "localeCompare lib"
  have anti: "\<And>a b. (?lc a b < 0) = (0 < ?lc b a)"
    and trans: "\<And>a b c. ?lc a b \<le> 0 \<Longrightarrow> ?lc b c \<le> 0 \<Longrightarrow> ?lc a c \<le> 0"
    using assms(1) unfolding consistent_comparator_def by blast+
  have tot: "?lc a b \<le> 0 \<or> ?lc b a \<le> 0" for a b
    using anti[of b a] by linarith
  have sym0: "?lc a b = 0 \<Longrightarrow> ?lc b a = 0" for a b
    using anti[of a b] anti[of b a] by linarith
  from built_guides[OF assms(2,3)] obtain files gs where
    f: "fs_readdir fs (rules_dir repoRoot (config sd)) = Inr files" and
    m: "map fileName gs = filter (endsWith ''.mdc'') files" and
    ti: "\<forall>g\<in>set gs. title g = titleize (toUpperCase lib) (fileName g)" and
    s: "guides sd = array_sort (guide_compare lib) gs"
    by blast
  have gtot: "\<And>a b. guide_compare lib a b \<le> 0 \<or> guide_compare lib b a \<le> 0"
    using tot by (simp add: guide_compare_def)
  have gtrans: "\<And>a b c. guide_compare lib a b \<le> 0 \<Longrightarrow> guide_compare lib b c \<le> 0 \<Longrightarrow> guide_compare lib a c \<le> 0"
  proof -
    fix a b c assume 1: "guide_compare lib a b \<le> 0" and 2: "guide_compare lib b c \<le> 0"
    show "guide_compare lib a c \<le> 0"
    proof (cases "fileName a = ''README.md''")
      case True
      then show ?thesis by (simp add: guide_compare_def)
    next
      case False
      with 1 have b: "fileName b \<noteq> ''README.md''" "?lc (title a) (title b) \<le> 0"
        by (auto simp: guide_compare_def split: if_splits)
      with 2 have c: "fileName c \<noteq> ''README.md''" "?lc (title b) (title c) \<le> 0"
        by (auto simp: guide_compare_def split: if_splits)
      show ?thesis using False c(1) trans[OF b(2) c(2)] by (simp add: guide_compare_def)
    qed
  qed
  have sorted1: "sorted_wrt (\<lambda>a b. guide_compare lib a b \<le> 0) (guides sd)"
    unfolding s by (rule array_sort_sorted[OF gtot gtrans])
  have mem: "set (guides sd) = set gs" using s by (simp add: array_sort_set)
  have nr: "\<forall>h\<in>set gs. fileName h \<noteq> ''README.md''"
    using map_fileName_mdc[OF m] endsWith_mdc_not_README by blast
  have cmp_eq: "\<forall>a\<in>set gs. \<forall>b\<in>set gs. guide_compare lib a b = ?lc (title a) (title b)"
    using nr by (simp add: guide_compare_def)
  have sorted2: "sorted_wrt (\<lambda>a b. ?lc (title a) (title b) \<le> 0) (guides sd)"
    using sorted1 cmp_eq mem by (metis (mono_tags, lifting) sorted_wrt_mono_rel)
  have stable: "map fileName (filter (\<lambda>g. ?lc (title g) t = 0) (guides sd))
      = filter (\<lambda>f. ?lc (titleize (toUpperCase lib) f) t = 0) (filter (endsWith ''.mdc'') files)" for t
  proof -
    let ?P = "\<lambda>g. ?lc (title g) t = 0"
    have cls: "\<forall>x\<in>set gs. \<forall>y\<in>set gs. ?P x \<and> ?P y \<longrightarrow> guide_compare lib x y \<le> 0"
    proof (intro ballI impI)
      fix x y assume x: "x \<in> set gs" and y: "y \<in> set gs" and p: "?P x \<and> ?P y"
      then have "?lc (title x) t \<le> 0" "?lc t (title y) \<le> 0" using sym0 by auto
      then have "?lc (title x) (title y) \<le> 0" using trans by blast
      then show "guide_compare lib x y \<le> 0" using cmp_eq x y by simp
    qed
    have "filter ?P (guides sd) = filter ?P gs"
      unfolding s by (rule array_sort_filter[OF cls])
    moreover have "filter ?P gs = filter ((\<lambda>f. ?lc (titleize (toUpperCase lib) f) t = 0) \<circ> fileName) gs"
      using ti by (intro filter_cong) auto
    ultimately have "map fileName (filter ?P (guides sd))
        = filter (\<lambda>f. ?lc (titleize (toUpperCase lib) f) t = 0) (map fileName gs)"
      by (simp add: filter_map)
    then show ?thesis using m by simp
  qed
  show ?thesis using sorted1 sorted2 f stable by blast
qed

theorem guides_sorted_by_title_witness:
  "consistent_comparator (localeCompare example_lib)
   \<and> build_stacks example_lib ''/repo'' example_fs [hd STACKS] = Inr [example_stack]
   \<and> map fileName (guides example_stack) = [''a-guide.mdc'', ''b-guide.mdc'']
   \<and> sorted_wrt (\<lambda>a b. guide_compare example_lib a b \<le> 0) (guides example_stack)
   \<and> sorted_wrt (\<lambda>a b. localeCompare example_lib (title a) (title b) \<le> 0) (guides example_stack)"
proof -
  have c: "consistent_comparator (localeCompare example_lib)"
    using cuc_consistent by (simp add: example_lib_def)
  have m: "example_stack \<in> set [example_stack]" by simp
  have f: "map fileName (guides example_stack) = [''a-guide.mdc'', ''b-guide.mdc'']"
    by (simp add: example_stack_def make_guide_fileName)
  from guides_sorted_by_title[OF c example_build m] c f example_build show ?thesis by blast
qed

text \<open>
  Claim C9. When listing the rule directory of one of the configured stacks fails, the
  build ends with an error, which \<open>run_build\<close> prints, and the regular files and their
  texts are what they were: no snapshot is written and an existing one is not replaced.
  The write is the last step of \<open>buildGuidesData\<close>, after \<open>build_stacks\<close> has returned
  all stacks.
\<close>

theorem build_aborts_on_unlistable_directory:
  assumes "stack \<in> set STACKS" and "fs_readdir fs (rules_dir repoRoot stack) = Inl err"
  shows "\<exists>e fs'. buildGuidesData lib repoRoot fs = (Inl e, fs')
           \<and> file_text fs' = file_text fs
           \<and> run_build lib repoRoot fs = ([Failure e], fs')"
proof (cases "fs_mkdir fs (data_dir repoRoot)")
  case (Inl e)
  then show ?thesis by (simp add: buildGuidesData_def run_build_def)
next
  case (Inr fs1)
  then have fs1: "fs1 = fs \<or> (entries fs (data_dir repoRoot) = None
      \<and> fs1 = fs\<lparr>entries := (entries fs)(data_dir repoRoot \<mapsto> Dir [])\<rparr>)"
    by (auto simp: fs_mkdir_def split: if_splits option.splits fs_entry.splits)
  have "fs_readdir fs1 (rules_dir repoRoot stack) = fs_readdir fs (rules_dir repoRoot stack)"
    using fs1 rules_dir_not_data_dir[of repoRoot stack]
    by (auto simp: fs_readdir_def split: option.splits fs_entry.splits)
  then have "build_stack lib repoRoot fs1 stack = Inl err"
    using assms(2) by (simp add: build_stack_def)
  from build_stacks_fails[OF assms(1) this] obtain e where
    e: "build_stacks lib repoRoot fs1 STACKS = Inl e" by blast
  have "file_text fs1 p = file_text fs p" for p
    using fs1 by (auto simp: file_text_def)
  then have "file_text fs1 = file_text fs" by blast
  then show ?thesis using Inr e by (simp add: buildGuidesData_def run_build_def)
qed

theorem build_aborts_on_unlistable_directory_witness:
  "\<exists>e fs'. buildGuidesData example_lib ''/repo'' example_fs = (Inl e, fs')
      \<and> file_text fs' = file_text example_fs
      \<and> run_build example_lib ''/repo'' example_fs = ([Failure e], fs')"
proof -
  have 1: "STACKS ! 1 \<in> set STACKS" by (simp add: STACKS_def)
  have 2: "fs_readdir example_fs (rules_dir ''/repo'' (STACKS ! 1)) = Inl (ReaddirFailed ''/repo/Python/.cursor/rules'')"
    by (simp add: path_defs STACKS_def example_fs_def fs_readdir_def)
  show ?thesis using build_aborts_on_unlistable_directory[OF 1 2] .
qed

text \<open>
  Claim C6 fails on the code. A header that gives \<open>globs\<close> a value on the same line is
  read as a scalar, and \<open>frontmatter.globs || []\<close> keeps a truthy scalar: the derived
  field is then a string or a boolean, not a list.
\<close>

theorem make_guide_scalar_globs:
  "globs (make_guide lib ''typescript.mdc'' ''---\<newline>globs: *.ts\<newline>---\<newline>body'') = Str ''*.ts''
   \<and> globs (make_guide lib ''typescript.mdc'' ''---\<newline>globs: true\<newline>---\<newline>body'') = Bool True"
  by (simp add: make_guide_def derive_globs_def js_string_defs frontmatter_defs Let_def)

section \<open>Properties of the server\<close>









section \<open>Facts about the renderer\<close>

declare li_run.simps [simp del]

lemma li_run_None: "li_item s = None \<Longrightarrow> li_run s = 0"
  by (subst li_run.simps) simp

lemma li_run_Some: "li_item s = Some n \<Longrightarrow> n \<noteq> 0 \<Longrightarrow> s \<noteq> [] \<Longrightarrow> li_run s = n + li_run (drop n s)"
  by (subst li_run.simps) simp

lemmas matcher_defs =
  m_fence_def m_line_prefix_def m_line_exact_def m_ordered_item_def m_unordered_item_def
  m_list_wrap_def m_span_def m_inline_code_def m_link_def m_image_def m_literal_def
  m_nested_paragraph_def li_item_def is_ordered_match_def rest_of_line_def escape_html_def
  fence_def backtick_def is_digit_def is_lower_def is_upper_def is_word_char_def

lemmas block_defs =
  render_block_def is_block_element_def startsWith_ci_def ascii_lower_def

lemma gsub_quiet:
  assumes "quiet_pass f m"
  shows "calm f bol s \<Longrightarrow> gsub m bol s = s"
proof (induction s arbitrary: bol)
  case Nil
  then show ?case using assms by (simp add: quiet_pass_def)
next
  case (Cons c cs)
  have none: "m bol (c # cs) = None"
  proof (cases "c = CHR ''<''")
    case True
    then show ?thesis using Cons.prems assms
      by (cases cs) (auto simp: quiet_pass_def)
  next
    case False
    show ?thesis
    proof (cases "c = LF")
      case True
      then show ?thesis using assms by (simp add: quiet_pass_def)
    next
      case nlf: False
      then have "plain_char c" "bol \<longrightarrow> \<not> line_start_char c" "calm f False cs"
        using Cons.prems False by auto
      then show ?thesis using assms by (cases bol) (auto simp: quiet_pass_def)
    qed
  qed
  have "calm f (is_line_terminator c) cs"
    using Cons.prems by (auto simp: is_line_terminator_def LF_def plain_char_def CR_def split: if_splits)
  then show ?case using none Cons.IH by simp
qed

lemma quiet_passI:
  assumes "\<And>b c r. c \<noteq> f \<Longrightarrow> m b (CHR ''<'' # c # r) = None"
    and "\<And>b. m b ''<'' = None"
    and "\<And>b r. m b (LF # r) = None"
    and "\<And>c r. plain_char c \<Longrightarrow> calm f False r \<Longrightarrow> m False (c # r) = None"
    and "\<And>c r. plain_char c \<Longrightarrow> \<not> line_start_char c \<Longrightarrow> calm f False r \<Longrightarrow> m True (c # r) = None"
    and "\<And>b. m b [] = None"
  shows "quiet_pass f m"
  unfolding quiet_pass_def
proof (intro conjI allI impI)
  fix b c r assume "c \<noteq> f" then show "m b (CHR ''<'' # c # r) = None" by (rule assms(1))
next
  fix b show "m b ''<'' = None" by (rule assms(2))
next
  fix b r show "m b (LF # r) = None" by (rule assms(3))
next
  fix c r assume "plain_char c \<and> calm f False r"
  then show "m False (c # r) = None" using assms(4) by blast
next
  fix c r assume "plain_char c \<and> \<not> line_start_char c \<and> calm f False r"
  then show "m True (c # r) = None" using assms(5) by blast
next
  fix b show "m b [] = None" by (rule assms(6))
qed

lemma quiet_fence: "quiet_pass (CHR ''l'') m_fence"
  by (rule quiet_passI) (auto simp: m_fence_def fence_def plain_char_def backtick_def LF_def)

lemma quiet_line_prefix:
  "pre \<noteq> [] \<Longrightarrow> line_start_char (hd pre) \<Longrightarrow> quiet_pass (CHR ''l'') (m_line_prefix pre opn cls)"
proof (cases pre)
  case Nil then show ?thesis if "pre \<noteq> []" using that by simp
next
  case (Cons p ps)
  assume "line_start_char (hd pre)"
  then have p: "line_start_char p" using Cons by simp
  then have p1: "p \<noteq> CHR ''<''" "p \<noteq> LF" by (auto simp: line_start_char_def LF_def is_digit_def)
  show ?thesis unfolding Cons
    by (rule quiet_passI) (use p p1 in \<open>auto simp: m_line_prefix_def\<close>)
qed

lemma quiet_line_exact:
  "line \<noteq> [] \<Longrightarrow> line_start_char (hd line) \<Longrightarrow> quiet_pass (CHR ''l'') (m_line_exact line r)"
proof (cases line)
  case Nil then show ?thesis if "line \<noteq> []" using that by simp
next
  case (Cons p ps)
  assume "line_start_char (hd line)"
  then have p: "line_start_char p" using Cons by simp
  then have p1: "p \<noteq> CHR ''<''" "p \<noteq> LF" by (auto simp: line_start_char_def LF_def is_digit_def)
  show ?thesis unfolding Cons
    by (rule quiet_passI) (use p p1 in \<open>auto simp: m_line_exact_def\<close>)
qed

lemma quiet_ordered: "quiet_pass (CHR ''l'') m_ordered_item"
  by (rule quiet_passI) (simp_all add: m_ordered_item_def line_start_char_def LF_def is_digit_def Let_def)

lemma quiet_unordered: "quiet_pass (CHR ''l'') m_unordered_item"
  by (rule quiet_passI) (auto simp: m_unordered_item_def line_start_char_def LF_def Let_def)

lemma li_item_not_li: "\<not> startsWith ''<li>'' s \<Longrightarrow> li_run s = 0"
  by (simp add: li_run_None li_item_def)

lemma quiet_list_wrap: "quiet_pass (CHR ''l'') m_list_wrap"
  by (rule quiet_passI) (auto simp: m_list_wrap_def li_item_not_li plain_char_def LF_def Let_def)

lemma quiet_span:
  "delim \<noteq> [] \<Longrightarrow> \<not> plain_char (hd delim) \<Longrightarrow> hd delim \<noteq> CHR ''<'' \<Longrightarrow> hd delim \<noteq> LF \<Longrightarrow>
     quiet_pass (CHR ''l'') (m_span delim opn cls)"
proof (cases delim)
  case Nil then show ?thesis if "delim \<noteq> []" using that by simp
next
  case (Cons p ps)
  assume "\<not> plain_char (hd delim)" "hd delim \<noteq> CHR ''<''" "hd delim \<noteq> LF"
  then have p: "\<not> plain_char p" "p \<noteq> CHR ''<''" "p \<noteq> LF" using Cons by simp_all
  show ?thesis unfolding Cons
    by (rule quiet_passI) (use p in \<open>auto simp: m_span_def\<close>)
qed

lemma quiet_inline_code: "quiet_pass (CHR ''l'') m_inline_code"
  by (rule quiet_passI) (simp_all add: m_inline_code_def plain_char_def backtick_def LF_def Let_def)

lemma quiet_link: "quiet_pass (CHR ''l'') m_link"
  by (rule quiet_passI) (simp_all add: m_link_def plain_char_def LF_def Let_def)

lemma calm_not_bracket: "calm f b r \<Longrightarrow> \<not> startsWith ''['' r"
  by (cases r) (auto simp: plain_char_def LF_def split: if_splits)

lemma quiet_image: "quiet_pass (CHR ''l'') m_image"
proof (rule quiet_passI)
  fix c r assume "plain_char c" "calm (CHR ''l'') False r"
  then show "m_image False (c # r) = None"
    using calm_not_bracket[of "CHR ''l''" False r] by (cases r) (auto simp: m_image_def Let_def)
next
  fix c r assume "plain_char c" "\<not> line_start_char c" "calm (CHR ''l'') False r"
  then show "m_image True (c # r) = None"
    using calm_not_bracket[of "CHR ''l''" False r] by (cases r) (auto simp: m_image_def Let_def)
qed (simp_all add: m_image_def LF_def Let_def)

lemma quiet_literal_pp: "quiet_pass (CHR ''p'') (m_literal ''<p></p>'' r)"
  by (rule quiet_passI) (auto simp: m_literal_def plain_char_def LF_def)

lemma quiet_nested: "quiet_pass (CHR ''p'') m_nested_paragraph"
  by (rule quiet_passI) (auto simp: m_nested_paragraph_def plain_char_def LF_def Let_def)

lemma parseMarkdown_calm:
  assumes "calm (CHR ''l'') True s" and "s \<noteq> []"
  shows "parseMarkdown s =
           gsub m_nested_paragraph True
             (gsub (m_literal ''<p></p>'' []) True
               (join_with [LF] (map render_block (split_blocks s))))"
proof -
  have q: "gsub m True s = s" if "quiet_pass (CHR ''l'') m" for m
    using gsub_quiet[OF that assms(1)] .
  have lp: "gsub (m_line_prefix pre opn cls) True s = s"
    if "pre \<noteq> []" "line_start_char (hd pre)" for pre opn cls
    using q[OF quiet_line_prefix[OF that]] .
  have le: "gsub (m_line_exact line r) True s = s"
    if "line \<noteq> []" "line_start_char (hd line)" for line r
    using q[OF quiet_line_exact[OF that]] .
  have sp: "gsub (m_span delim opn cls) True s = s"
    if "delim \<noteq> []" "\<not> plain_char (hd delim)" "hd delim \<noteq> CHR ''<''" "hd delim \<noteq> LF" for delim opn cls
    using q[OF quiet_span[OF that]] .
  have 1: "gsub m_fence True s = s" by (rule q[OF quiet_fence])
  have 2: "gsub (m_line_prefix ''###### '' ''<h6>'' ''</h6>'') True s = s"
    "gsub (m_line_prefix ''##### '' ''<h5>'' ''</h5>'') True s = s"
    "gsub (m_line_prefix ''#### '' ''<h4>'' ''</h4>'') True s = s"
    "gsub (m_line_prefix ''### '' ''<h3>'' ''</h3>'') True s = s"
    "gsub (m_line_prefix ''## '' ''<h2>'' ''</h2>'') True s = s"
    "gsub (m_line_prefix ''# '' ''<h1>'' ''</h1>'') True s = s"
    "gsub (m_line_prefix ''> '' ''<blockquote>'' ''</blockquote>'') True s = s"
    by (rule lp; simp add: line_start_char_def)+
  have 3: "gsub (m_line_exact ''---'' ''<hr>'') True s = s"
    "gsub (m_line_exact ''***'' ''<hr>'') True s = s"
    by (rule le; simp add: line_start_char_def)+
  have 4: "gsub m_ordered_item True s = s" "gsub m_unordered_item True s = s"
    "gsub m_list_wrap True s = s" "gsub m_inline_code True s = s"
    "gsub m_link True s = s" "gsub m_image True s = s"
    by (rule q, rule quiet_ordered quiet_unordered quiet_list_wrap quiet_inline_code quiet_link
        quiet_image)+
  have 5: "gsub (m_span ''***'' ''<strong><em>'' ''</em></strong>'') True s = s"
    "gsub (m_span ''**'' ''<strong>'' ''</strong>'') True s = s"
    "gsub (m_span ''__'' ''<strong>'' ''</strong>'') True s = s"
    "gsub (m_span ''*'' ''<em>'' ''</em>'') True s = s"
    "gsub (m_span ''_'' ''<em>'' ''</em>'') True s = s"
    by (rule sp; simp add: plain_char_def LF_def)+
  show ?thesis
    unfolding parseMarkdown_def Let_def using assms(2) by (simp only: 1 2 3 4 5 if_False)
qed

lemma split_blocks_no_LF: "LF \<notin> set s \<Longrightarrow> split_blocks s = [s]"
  by (induction s) auto

lemma split_blocks_one_LF:
  "LF \<notin> set a \<Longrightarrow> LF \<notin> set b \<Longrightarrow> b \<noteq> [] \<Longrightarrow> split_blocks (a @ LF # b) = [a @ LF # b]"
proof (induction a)
  case Nil
  then show ?case by (cases b) (auto simp: split_blocks_no_LF)
next
  case (Cons c cs)
  then show ?case by auto
qed

lemma rev_dropWhile_rev:
  "rev (dropWhile P (rev a)) = take (length (dropWhile P (rev a))) a"
proof -
  have "dropWhile P (rev a) = drop (length (takeWhile P (rev a))) (rev a)"
    by (rule dropWhile_eq_drop)
  then show ?thesis by (simp add: rev_drop)
qed

lemma trim_id: "s \<noteq> [] \<Longrightarrow> \<not> is_ws (hd s) \<Longrightarrow> \<not> is_ws (last s) \<Longrightarrow> trim s = s"
proof -
  assume s: "s \<noteq> []" and h: "\<not> is_ws (hd s)" and l: "\<not> is_ws (last s)"
  have 1: "dropWhile is_ws s = s" using s h by (cases s) auto
  have r: "rev s = last s # rev (butlast s)"
    using s by (metis append_butlast_last_id rev_eq_Cons_iff rev_rev_ident)
  have "dropWhile is_ws (last s # rev (butlast s)) = last s # rev (butlast s)" using l by simp
  then have 2: "dropWhile is_ws (rev s) = rev s" by (simp only: r)
  show ?thesis by (simp add: trim_def trimStart_def trimEnd_def 1 2)
qed

lemma trim_props:
  assumes "\<exists>c\<in>set x. \<not> is_ws c"
  shows "trim x \<noteq> []" and "\<not> is_ws (hd (trim x))" and "\<not> is_ws (last (trim x))"
    and "set (trim x) \<subseteq> set x"
proof -
  let ?a = "dropWhile is_ws x"
  have a: "?a \<noteq> []" using assms by (simp add: dropWhile_eq_Nil_conv)
  have ha: "\<not> is_ws (hd ?a)" using a hd_dropWhile by blast
  have sa: "set ?a \<subseteq> set x" by (meson set_dropWhileD subsetI)
  have "hd ?a \<in> set (rev ?a)" using a by simp
  then have b: "dropWhile is_ws (rev ?a) \<noteq> []" using ha by (auto simp: dropWhile_eq_Nil_conv)
  have hb: "\<not> is_ws (hd (dropWhile is_ws (rev ?a)))" using b hd_dropWhile by blast
  have t: "trim x = rev (dropWhile is_ws (rev ?a))" by (simp add: trim_def trimStart_def trimEnd_def)
  show "trim x \<noteq> []" using b t by simp
  show "\<not> is_ws (last (trim x))" using hb b t by (simp add: last_rev)
  have "set (trim x) \<subseteq> set ?a" unfolding t by (metis set_dropWhileD set_rev subsetI)
  then show "set (trim x) \<subseteq> set x" using sa by blast
  have "trim x = take (length (dropWhile is_ws (rev ?a))) ?a"
    unfolding t by (rule rev_dropWhile_rev)
  then have "hd (trim x) = hd ?a" using b by (metis hd_take length_greater_0_conv)
  then show "\<not> is_ws (hd (trim x))" using ha by simp
qed

lemma plain_tag_chars:
  "plain_char (CHR ''p'')" "plain_char (CHR ''>'')" "plain_char (CHR ''/'')"
  "plain_char (CHR ''r'')" "plain_char (CHR ''e'')" "plain_char (CHR ''c'')"
  "plain_char (CHR ''o'')" "plain_char (CHR ''d'')"
  "CHR ''p'' \<noteq> LF" "CHR ''>'' \<noteq> LF" "CHR ''/'' \<noteq> LF" "CHR ''r'' \<noteq> LF" "CHR ''e'' \<noteq> LF"
  "CHR ''c'' \<noteq> LF" "CHR ''o'' \<noteq> LF" "CHR ''d'' \<noteq> LF" "CHR ''<'' \<noteq> LF"
  by (simp_all add: plain_char_def backtick_def LF_def CR_def)

lemma calm_plain_append:
  "\<forall>c\<in>set t. plain_char c \<Longrightarrow> t \<noteq> [] \<Longrightarrow> (b \<longrightarrow> \<not> line_start_char (hd t)) \<Longrightarrow>
     calm f b (t @ u) = calm f False u"
proof (induction t arbitrary: b)
  case Nil
  then show ?case by simp
next
  case (Cons c cs)
  have c: "c \<noteq> CHR ''<''" "c \<noteq> LF" "plain_char c" using Cons.prems(1) by (auto simp: plain_char_def)
  show ?case
  proof (cases "cs = []")
    case True
    then show ?thesis using c Cons.prems by simp
  next
    case False
    have "calm f False (cs @ u) = calm f False u" using Cons.IH[of False] Cons.prems(1) False by simp
    then show ?thesis using c Cons.prems by simp
  qed
qed

lemma gsub_step: "m bol (c # cs) = None \<Longrightarrow> gsub m bol (c # cs) = c # gsub m (is_line_terminator c) cs"
  by simp

lemma cleanup_after_p:
  assumes "quiet_pass (CHR ''p'') m" and "m b (CHR ''<'' # CHR ''p'' # r) = None"
    and "calm (CHR ''p'') False (CHR ''p'' # r)"
  shows "gsub m b (CHR ''<'' # CHR ''p'' # r) = CHR ''<'' # CHR ''p'' # r"
proof -
  have "gsub m b (CHR ''<'' # CHR ''p'' # r) = CHR ''<'' # gsub m False (CHR ''p'' # r)"
    using assms(2) by (simp add: is_line_terminator_def)
  then show ?thesis using gsub_quiet[OF assms(1,3)] by simp
qed

lemma paragraph_cleanup_none:
  assumes "t \<noteq> []" and "hd t \<noteq> CHR ''<''"
  shows "m_literal ''<p></p>'' [] b (''<p>'' @ t @ u) = None"
    and "m_nested_paragraph b (''<p>'' @ t @ u) = None"
  using assms by (cases t; simp add: m_literal_def m_nested_paragraph_def)+

lemma calm_paragraph:
  assumes "\<forall>c\<in>set t. plain_char c" and "calm f False u"
  shows "calm f False (''p>'' @ t @ u)"
proof -
  have "\<forall>c\<in>set (''p>'' @ t). plain_char c" using assms(1) by (auto simp: plain_tag_chars)
  then have "calm f False ((''p>'' @ t) @ u) = calm f False u"
    by (intro calm_plain_append) auto
  then show ?thesis using assms(2) by simp
qed

lemma calm_close_p: "f \<noteq> CHR ''/'' \<Longrightarrow> calm f b ''</p>''" "f \<noteq> CHR ''/'' \<Longrightarrow> calm f b ''</p></p>''"
  by (simp_all add: plain_tag_chars)

lemma cleanup_paragraph:
  assumes "quiet_pass (CHR ''p'') m"
    and "\<And>b u. m b (''<p>'' @ t @ u) = None"
    and "\<forall>c\<in>set t. plain_char c"
    and "calm (CHR ''p'') False u"
  shows "gsub m b (''<p>'' @ t @ u) = ''<p>'' @ t @ u"
proof -
  have c: "calm (CHR ''p'') False (''p>'' @ t @ u)"
    by (rule calm_paragraph[OF assms(3,4)])
  have e: "''<p>'' @ t @ u = CHR ''<'' # CHR ''p'' # (CHR ''>'' # t @ u)"
    and e2: "''p>'' @ t @ u = CHR ''p'' # (CHR ''>'' # t @ u)" by simp_all
  have n: "m b (CHR ''<'' # CHR ''p'' # (CHR ''>'' # t @ u)) = None"
    using assms(2)[of b u] unfolding e .
  have c': "calm (CHR ''p'') False (CHR ''p'' # (CHR ''>'' # t @ u))"
    using c unfolding e2 .
  have "gsub m b (CHR ''<'' # CHR ''p'' # (CHR ''>'' # t @ u)) = CHR ''<'' # CHR ''p'' # (CHR ''>'' # t @ u)"
    using assms(1) n c' by (rule cleanup_after_p)
  then show ?thesis by (simp only: e)
qed

lemma first_render_block:
  assumes "\<forall>c\<in>set t. plain_char c" and "t \<noteq> []" and "\<not> is_ws (hd t)" and "\<not> is_ws (last t)"
  shows "render_block t = ''<p>'' @ t @ ''</p>''"
proof -
  have tr: "trim t = t" using assms by (simp add: trim_id)
  obtain c cs where t: "t = c # cs" using assms(2) by (cases t) auto
  have "c \<noteq> CHR ''<''" using assms(1) t by (auto simp: plain_char_def)
  then have nb: "\<not> is_block_element t" by (simp add: t is_block_element_def)
  have "LF \<notin> set t" using assms(1) by (auto simp: plain_char_def)
  then have br: "concat (map (\<lambda>c. if c = LF then ''<br>'' else [c]) t) = t"
    by (induction t) auto
  show ?thesis using tr nb br assms(2) by (simp add: render_block_def Let_def)
qed

lemma br_id: "LF \<notin> set s \<Longrightarrow> concat (map (\<lambda>c. if c = LF then ''<br>'' else [c]) s) = s"
  by (induction s) auto

lemma plain_no_LF: "\<forall>c\<in>set t. plain_char c \<Longrightarrow> LF \<notin> set t"
  by (auto simp: plain_char_def)

lemma plain_not_lt: "\<forall>c\<in>set t. plain_char c \<Longrightarrow> t \<noteq> [] \<Longrightarrow> hd t \<noteq> CHR ''<''"
  by (cases t) (auto simp: plain_char_def)

lemma cleanup_both:
  assumes "\<forall>c\<in>set t. plain_char c" and "t \<noteq> []" and "calm (CHR ''p'') False u"
  shows "gsub (m_literal ''<p></p>'' []) b (''<p>'' @ t @ u) = ''<p>'' @ t @ u"
    and "gsub m_nested_paragraph b (''<p>'' @ t @ u) = ''<p>'' @ t @ u"
proof -
  have h: "hd t \<noteq> CHR ''<''" using plain_not_lt[OF assms(1,2)] .
  show "gsub (m_literal ''<p></p>'' []) b (''<p>'' @ t @ u) = ''<p>'' @ t @ u"
    by (rule cleanup_paragraph[OF quiet_literal_pp _ assms(1,3)])
      (rule paragraph_cleanup_none(1)[OF assms(2) h])
  show "gsub m_nested_paragraph b (''<p>'' @ t @ u) = ''<p>'' @ t @ u"
    by (rule cleanup_paragraph[OF quiet_nested _ assms(1,3)])
      (rule paragraph_cleanup_none(2)[OF assms(2) h])
qed

lemma render_plain_text:
  assumes "\<forall>c\<in>set x. plain_char c" and "\<not> line_start_char (hd x)" and "\<exists>c\<in>set x. \<not> is_ws c"
  shows "parseMarkdown x = ''<p>'' @ trim x @ ''</p>''"
proof -
  have ne: "x \<noteq> []" using assms(3) by auto
  have "calm (CHR ''l'') True (x @ []) = calm (CHR ''l'') False []"
    by (rule calm_plain_append) (use assms ne in auto)
  then have calm: "calm (CHR ''l'') True x" by simp
  have sp: "split_blocks x = [x]" using plain_no_LF[OF assms(1)] by (rule split_blocks_no_LF)
  let ?t = "trim x"
  have t: "?t \<noteq> []" "\<not> is_ws (hd ?t)" "\<not> is_ws (last ?t)" "set ?t \<subseteq> set x"
    using trim_props[OF assms(3)] by blast+
  have pt: "\<forall>c\<in>set ?t. plain_char c" using assms(1) t(4) by blast
  have tt: "trim ?t = ?t" using t by (simp add: trim_id)
  have "render_block x = render_block ?t" by (simp add: render_block_def tt)
  then have rb: "render_block x = ''<p>'' @ ?t @ ''</p>''"
    using first_render_block[OF pt t(1,2,3)] by simp
  have cl: "calm (CHR ''p'') False ''</p>''" by (simp add: plain_tag_chars)
  have j: "join_with [LF] (map render_block [x]) = ''<p>'' @ ?t @ ''</p>''" by (simp add: rb)
  have "parseMarkdown x =
      gsub m_nested_paragraph True (gsub (m_literal ''<p></p>'' []) True
        (join_with [LF] (map render_block (split_blocks x))))"
    by (rule parseMarkdown_calm[OF calm ne])
  also have "\<dots> = gsub m_nested_paragraph True (gsub (m_literal ''<p></p>'' []) True
        (''<p>'' @ ?t @ ''</p>''))"
    by (simp only: sp j)
  also have "\<dots> = gsub m_nested_paragraph True (''<p>'' @ ?t @ ''</p>'')"
    by (simp only: cleanup_both(1)[OF pt t(1) cl])
  also have "\<dots> = ''<p>'' @ ?t @ ''</p>''"
    by (rule cleanup_both(2)[OF pt t(1) cl])
  finally show ?thesis .
qed

lemma nested_cleanup_none:
  assumes "t \<noteq> []" and "hd t \<noteq> CHR ''<''"
  shows "m_literal ''<p></p>'' [] b (''<p><p>'' @ t @ u) = None"
    and "m_nested_paragraph b (''<p><p>'' @ t @ u) = None"
    and "m_literal ''<p></p>'' [] b (''p><p>'' @ t @ u) = None"
    and "m_nested_paragraph b (''p><p>'' @ t @ u) = None"
    and "m_literal ''<p></p>'' [] b (''><p>'' @ t @ u) = None"
    and "m_nested_paragraph b (''><p>'' @ t @ u) = None"
  using assms by (cases t; simp add: m_literal_def m_nested_paragraph_def)+

lemma cleanup_nested_paragraph:
  assumes "\<forall>c\<in>set t. plain_char c" and "t \<noteq> []"
    and m: "m = m_literal ''<p></p>'' [] \<or> m = m_nested_paragraph"
  shows "gsub m b (''<p><p>'' @ t @ ''</p></p>'') = ''<p><p>'' @ t @ ''</p></p>''"
proof -
  have h: "hd t \<noteq> CHR ''<''" using plain_not_lt[OF assms(1,2)] .
  have cl: "calm (CHR ''p'') False ''</p></p>''" by (simp add: plain_tag_chars)
  have w: "gsub m b' (''<p>'' @ t @ ''</p></p>'') = ''<p>'' @ t @ ''</p></p>''" for b'
    using m cleanup_both[OF assms(1,2) cl] by auto
  have n0: "m b (CHR ''<'' # CHR ''p'' # CHR ''>'' # (''<p>'' @ t @ ''</p></p>'')) = None"
    using m nested_cleanup_none(1,2)[OF assms(2) h, of b "''</p></p>''"] by auto
  have n1: "m b' (CHR ''p'' # CHR ''>'' # (''<p>'' @ t @ ''</p></p>'')) = None" for b'
    using m nested_cleanup_none(3,4)[OF assms(2) h, of b' "''</p></p>''"] by auto
  have n2: "m b' (CHR ''>'' # (''<p>'' @ t @ ''</p></p>'')) = None" for b'
    using m nested_cleanup_none(5,6)[OF assms(2) h, of b' "''</p></p>''"] by auto
  have "gsub m b (CHR ''<'' # CHR ''p'' # CHR ''>'' # (''<p>'' @ t @ ''</p></p>''))
      = CHR ''<'' # CHR ''p'' # CHR ''>'' # (''<p>'' @ t @ ''</p></p>'')"
    using n0 n1[of False] n2[of False] w[of False] by (simp add: is_line_terminator_def)
  then show ?thesis by simp
qed

lemma paragraph_not_block: "\<not> is_block_element (''<p>'' @ r)"
  by (simp add: is_block_element_def startsWith_ci_def ascii_lower_def)

lemma rerender_paragraph:
  assumes "\<forall>c\<in>set t. plain_char c" and "t \<noteq> []"
  shows "parseMarkdown (''<p>'' @ t @ ''</p>'') = ''<p><p>'' @ t @ ''</p></p>''"
proof -
  let ?s = "''<p>'' @ t @ ''</p>''"
  have cl: "calm (CHR ''l'') False ''</p>''" by (simp add: plain_tag_chars)
  have "calm (CHR ''l'') False (''p>'' @ t @ ''</p>'')" by (rule calm_paragraph[OF assms(1) cl])
  then have calm: "calm (CHR ''l'') True ?s" by simp
  have ne: "?s \<noteq> []" by simp
  have "LF \<notin> set ?s" using plain_no_LF[OF assms(1)] by (simp add: LF_def)
  then have sp: "split_blocks ?s = [?s]" and br: "concat (map (\<lambda>c. if c = LF then ''<br>'' else [c]) ?s) = ?s"
    by (rule split_blocks_no_LF, rule br_id)
  have "trim ?s = ?s" by (rule trim_id) (simp_all add: is_ws_def)
  then have rb: "render_block ?s = ''<p>'' @ ?s @ ''</p>''"
    using paragraph_not_block[of "t @ ''</p>''"] br by (simp add: render_block_def)
  have j: "join_with [LF] (map render_block [?s]) = ''<p><p>'' @ t @ ''</p></p>''"
  proof -
    have "join_with [LF] (map render_block [?s]) = render_block ?s" by simp
    also have "\<dots> = ''<p>'' @ ?s @ ''</p>''" by (rule rb)
    also have "\<dots> = ''<p><p>'' @ t @ ''</p></p>''" by simp
    finally show ?thesis .
  qed
  have "parseMarkdown ?s =
      gsub m_nested_paragraph True (gsub (m_literal ''<p></p>'' []) True
        (join_with [LF] (map render_block (split_blocks ?s))))"
    by (rule parseMarkdown_calm[OF calm ne])
  also have "\<dots> = gsub m_nested_paragraph True (gsub (m_literal ''<p></p>'' []) True
        (''<p><p>'' @ t @ ''</p></p>''))"
    by (simp only: sp j)
  also have "\<dots> = gsub m_nested_paragraph True (''<p><p>'' @ t @ ''</p></p>'')"
    by (simp only: cleanup_nested_paragraph[OF assms, of "m_literal ''<p></p>'' []"] simp_thms)
  also have "\<dots> = ''<p><p>'' @ t @ ''</p></p>''"
    by (simp only: cleanup_nested_paragraph[OF assms, of m_nested_paragraph] simp_thms)
  finally show ?thesis .
qed





























section \<open>Properties of the renderer\<close>




text \<open>
  Claim C2 fails on the code. The callback that wraps a run of list items tests
  \<open>/^\d+\./\<close> on the matched text, which starts with \<open><li>\<close> by then, the digits of
  the item lines having been replaced a step before. The test is false for every run,
  and an ordered list is rendered as \<open>ul\<close> like an unordered one.
\<close>

theorem ordered_list_rendered_unordered:
  "parseMarkdown ''1. a\<newline>2. b'' = ''<ul><li>a</li>\<newline><li>b</li></ul>''
   \<and> parseMarkdown ''- a\<newline>- b'' = ''<ul><li>a</li>\<newline><li>b</li></ul>''
   \<and> (\<forall>x. \<not> is_ordered_match (''<li>'' @ x))"
proof -
  have 1: "parseMarkdown ''1. a\<newline>2. b'' = ''<ul><li>a</li>\<newline><li>b</li></ul>''"
    by (simp add: parseMarkdown_def matcher_defs block_defs js_string_defs li_run_None li_run_Some Let_def)
  have 2: "parseMarkdown ''- a\<newline>- b'' = ''<ul><li>a</li>\<newline><li>b</li></ul>''"
    by (simp add: parseMarkdown_def matcher_defs block_defs js_string_defs li_run_None li_run_Some Let_def)
  have 3: "\<not> is_ordered_match (''<li>'' @ x)" for x
    by (simp add: is_ordered_match_def is_digit_def)
  show ?thesis using 1 2 3 by blast
qed

text \<open>
  Claim C5 fails on the code. For plain text (no backtick, asterisk, underscore,
  opening bracket, \<open><\<close> or line break, not starting with a character that starts a line
  pattern, and not only white space) the rendering is one paragraph element around the
  trimmed text. Rendering that paragraph again wraps it in one more paragraph element:
  \<open>p\<close> is not among the elements that the step commented \<open>Don't wrap block elements\<close>
  leaves unwrapped, and the pattern of the step commented \<open>fix nested paragraphs\<close>
  matches a paragraph around one tag only, not the nested paragraph that the wrapping
  made. The second rendering differs from the first.
\<close>

theorem rerender_wraps_paragraph:
  assumes "\<forall>c\<in>set x. plain_char c" and "\<not> line_start_char (hd x)"
    and "\<exists>c\<in>set x. \<not> is_ws c"
  shows "parseMarkdown x = ''<p>'' @ trim x @ ''</p>''
         \<and> parseMarkdown (parseMarkdown x) = ''<p>'' @ parseMarkdown x @ ''</p>''
         \<and> parseMarkdown (parseMarkdown x) \<noteq> parseMarkdown x"
proof -
  have first: "parseMarkdown x = ''<p>'' @ trim x @ ''</p>''"
    by (rule render_plain_text[OF assms])
  have t: "trim x \<noteq> []" "set (trim x) \<subseteq> set x"
    using trim_props[OF assms(3)] by blast+
  have pt: "\<forall>c\<in>set (trim x). plain_char c" using assms(1) t(2) by blast
  have "parseMarkdown (''<p>'' @ trim x @ ''</p>'') = ''<p><p>'' @ trim x @ ''</p></p>''"
    by (rule rerender_paragraph[OF pt t(1)])
  then have second: "parseMarkdown (parseMarkdown x) = ''<p>'' @ parseMarkdown x @ ''</p>''"
    by (simp add: first)
  have "length (parseMarkdown (parseMarkdown x)) \<noteq> length (parseMarkdown x)"
    unfolding second by simp
  then have "parseMarkdown (parseMarkdown x) \<noteq> parseMarkdown x" by metis
  then show ?thesis using first second by blast
qed

theorem rerender_wraps_paragraph_witness:
  "parseMarkdown ''hello world'' = ''<p>hello world</p>''
   \<and> parseMarkdown (parseMarkdown ''hello world'') = ''<p><p>hello world</p></p>''"
proof -
  have 1: "\<forall>c\<in>set ''hello world''. plain_char c"
    by (simp add: plain_char_def backtick_def LF_def CR_def)
  have 2: "\<not> line_start_char (hd ''hello world'')"
    by (simp add: line_start_char_def is_digit_def)
  have 3: "\<exists>c\<in>set ''hello world''. \<not> is_ws c" by (simp add: is_ws_def)
  have 4: "trim ''hello world'' = ''hello world''" by (simp add: js_string_defs)
  from rerender_wraps_paragraph[OF 1 2 3]
  have a: "parseMarkdown ''hello world'' = ''<p>'' @ trim ''hello world'' @ ''</p>''"
    and b: "parseMarkdown (parseMarkdown ''hello world'') = ''<p>'' @ parseMarkdown ''hello world'' @ ''</p>''"
    by blast+
  have a': "parseMarkdown ''hello world'' = ''<p>hello world</p>''"
    using a unfolding 4 by simp
  have "parseMarkdown (parseMarkdown ''hello world'') = ''<p><p>hello world</p></p>''"
    using b unfolding a' by simp
  then show ?thesis using a' by blast
qed

text \<open>
  The same at the text \<open>hello\<close>, by evaluation of the pipeline.
\<close>

theorem rerender_hello:
  "parseMarkdown ''hello'' = ''<p>hello</p>''
   \<and> parseMarkdown (parseMarkdown ''hello'') = ''<p><p>hello</p></p>''
   \<and> parseMarkdown (parseMarkdown ''hello'') \<noteq> parseMarkdown ''hello''"
proof -
  have 1: "parseMarkdown ''hello'' = ''<p>hello</p>''"
    by (simp add: parseMarkdown_def matcher_defs block_defs js_string_defs li_run_None Let_def)
  have 2: "parseMarkdown ''<p>hello</p>'' = ''<p><p>hello</p></p>''"
    by (simp add: parseMarkdown_def matcher_defs block_defs js_string_defs li_run_None Let_def)
  show ?thesis by (simp add: 1 2)
qed

end
